theory Spec2Isabelle
  imports Main "HOL-Library.Multiset"
begin

section \<open>Singly linked list (linked\_list.go)\<close>

subsection \<open>Data model\<close>

text \<open>
  A \<open>*Node\<close> is either nil (\<open>None\<close>) or the address of a node object. Node objects
  live in a heap that maps every address to a node; \<open>fresh\<close> is the next address the
  allocator hands out. \<open>Head\<close> and \<open>Size\<close> are the two fields of the \<open>LinkedList\<close>
  struct the receiver points to. Go's \<open>int\<close> is modelled by the unbounded integers:
  the list code only copies and compares values and counts nodes.
\<close>

type_synonym addr = nat

record Node =
  Data :: int
  Next :: "addr option"

record LinkedList =
  Head :: "addr option"
  Size :: int
  heap :: "addr \<Rightarrow> Node"
  fresh :: addr

text \<open>
  The errors built with \<open>fmt.Errorf\<close>: "cannot delete from empty list" and
  "list is empty" are \<open>EmptyList\<close>, "invalid position: %d" is \<open>InvalidPosition\<close>.
\<close>

datatype error = EmptyList | InvalidPosition int

text \<open>
  A call either returns (\<open>Done\<close>) or stops with a runtime panic (nil dereference,
  index out of range). A loop that may run forever is an option-valued partial
  function, where \<open>None\<close> stands for a call that never returns.
\<close>

datatype 'a exec = Done 'a | Panic

definition alloc :: "Node \<Rightarrow> LinkedList \<Rightarrow> addr \<times> LinkedList" where
  "alloc n s = (fresh s, s\<lparr>heap := (heap s)(fresh s := n), fresh := Suc (fresh s)\<rparr>)"

definition NewLinkedList :: LinkedList where
  "NewLinkedList = \<lparr>Head = None, Size = 0, heap = (\<lambda>_. \<lparr>Data = 0, Next = None\<rparr>), fresh = 0\<rparr>"

definition IsEmpty :: "LinkedList \<Rightarrow> bool" where
  "IsEmpty s = (Head s = None)"

definition Length :: "LinkedList \<Rightarrow> int" where
  "Length s = Size s"

subsection \<open>Insertion\<close>

definition Prepend :: "int \<Rightarrow> LinkedList \<Rightarrow> LinkedList" where
  "Prepend data s =
     (case alloc \<lparr>Data = data, Next = Head s\<rparr> s of
        (newNode, s1) \<Rightarrow> s1\<lparr>Head := Some newNode, Size := Size s1 + 1\<rparr>)"

partial_function (option) append_loop :: "(addr \<Rightarrow> Node) \<Rightarrow> addr \<Rightarrow> addr option" where
  "append_loop h current =
     (case Next (h current) of
        None \<Rightarrow> Some current
      | Some n \<Rightarrow> append_loop h n)"

definition Append :: "int \<Rightarrow> LinkedList \<Rightarrow> LinkedList option" where
  "Append data s =
     (case alloc \<lparr>Data = data, Next = None\<rparr> s of
        (newNode, s1) \<Rightarrow>
          (case Head s1 of
             None \<Rightarrow> Some (s1\<lparr>Head := Some newNode, Size := Size s1 + 1\<rparr>)
           | Some first \<Rightarrow>
               (case append_loop (heap s1) first of
                  None \<Rightarrow> None
                | Some current \<Rightarrow>
                    Some (s1\<lparr>heap := (heap s1)(current := (heap s1 current)\<lparr>Next := Some newNode\<rparr>),
                             Size := Size s1 + 1\<rparr>))))"

text \<open>The counting loop \<open>for i := 0; i < n; i++ { current = current.Next }\<close>.\<close>

function for_next :: "(addr \<Rightarrow> Node) \<Rightarrow> addr option \<Rightarrow> int \<Rightarrow> int \<Rightarrow> addr option exec" where
  "for_next h current i n =
     (if i < n then
        (case current of
           None \<Rightarrow> Panic
         | Some c \<Rightarrow> for_next h (Next (h c)) (i + 1) n)
      else Done current)"
  by pat_completeness auto
termination
  by (relation "measure (\<lambda>(h, current, i, n). nat (n - i))") auto

declare for_next.simps [simp del]

definition InsertAt :: "int \<Rightarrow> int \<Rightarrow> LinkedList \<Rightarrow> (error option \<times> LinkedList) exec" where
  "InsertAt data position s =
     (if position < 0 \<or> position > Size s then Done (Some (InvalidPosition position), s)
      else if position = 0 then Done (None, Prepend data s)
      else
        (case alloc \<lparr>Data = data, Next = None\<rparr> s of
           (newNode, s1) \<Rightarrow>
             (case for_next (heap s1) (Head s1) 0 (position - 1) of
                Panic \<Rightarrow> Panic
              | Done None \<Rightarrow> Panic
              | Done (Some current) \<Rightarrow>
                  (let h1 = (heap s1)(newNode := (heap s1 newNode)\<lparr>Next := Next (heap s1 current)\<rparr>);
                       h2 = h1(current := (h1 current)\<lparr>Next := Some newNode\<rparr>)
                   in Done (None, s1\<lparr>heap := h2, Size := Size s1 + 1\<rparr>)))))"

subsection \<open>Deletion\<close>

definition DeleteFirst :: "LinkedList \<Rightarrow> (error + int) \<times> LinkedList" where
  "DeleteFirst s =
     (case Head s of
        None \<Rightarrow> (Inl EmptyList, s)
      | Some first \<Rightarrow>
          (Inr (Data (heap s first)), s\<lparr>Head := Next (heap s first), Size := Size s - 1\<rparr>))"

partial_function (option) deleteLast_loop :: "(addr \<Rightarrow> Node) \<Rightarrow> addr \<Rightarrow> addr exec option" where
  "deleteLast_loop h current =
     (case Next (h current) of
        None \<Rightarrow> Some Panic
      | Some n \<Rightarrow>
          (case Next (h n) of
             None \<Rightarrow> Some (Done current)
           | Some _ \<Rightarrow> deleteLast_loop h n))"

definition DeleteLast :: "LinkedList \<Rightarrow> ((error + int) \<times> LinkedList) exec option" where
  "DeleteLast s =
     (case Head s of
        None \<Rightarrow> Some (Done (Inl EmptyList, s))
      | Some first \<Rightarrow>
          (case Next (heap s first) of
             None \<Rightarrow> Some (Done (Inr (Data (heap s first)), s\<lparr>Head := None, Size := Size s - 1\<rparr>))
           | Some _ \<Rightarrow>
               (case deleteLast_loop (heap s) first of
                  None \<Rightarrow> None
                | Some Panic \<Rightarrow> Some Panic
                | Some (Done current) \<Rightarrow>
                    (case Next (heap s current) of
                       None \<Rightarrow> Some Panic
                     | Some l \<Rightarrow>
                         Some (Done (Inr (Data (heap s l)),
                           s\<lparr>heap := (heap s)(current := (heap s current)\<lparr>Next := None\<rparr>),
                             Size := Size s - 1\<rparr>))))))"

definition DeleteAt :: "int \<Rightarrow> LinkedList \<Rightarrow> ((error + int) \<times> LinkedList) exec" where
  "DeleteAt position s =
     (if position < 0 \<or> position \<ge> Size s then Done (Inl (InvalidPosition position), s)
      else if position = 0 then Done (DeleteFirst s)
      else
        (case for_next (heap s) (Head s) 0 (position - 1) of
           Panic \<Rightarrow> Panic
         | Done None \<Rightarrow> Panic
         | Done (Some current) \<Rightarrow>
             (case Next (heap s current) of
                None \<Rightarrow> Panic
              | Some n \<Rightarrow>
                  Done (Inr (Data (heap s n)),
                    s\<lparr>heap := (heap s)(current := (heap s current)\<lparr>Next := Next (heap s n)\<rparr>),
                      Size := Size s - 1\<rparr>))))"

partial_function (option) deleteByValue_loop ::
    "int \<Rightarrow> LinkedList \<Rightarrow> addr \<Rightarrow> (bool \<times> LinkedList) option" where
  "deleteByValue_loop v s current =
     (case Next (heap s current) of
        None \<Rightarrow> Some (False, s)
      | Some n \<Rightarrow>
          (if Data (heap s n) = v
           then Some (True,
                  s\<lparr>heap := (heap s)(current := (heap s current)\<lparr>Next := Next (heap s n)\<rparr>),
                    Size := Size s - 1\<rparr>)
           else deleteByValue_loop v s n))"

definition DeleteByValue :: "int \<Rightarrow> LinkedList \<Rightarrow> (bool \<times> LinkedList) option" where
  "DeleteByValue v s =
     (case Head s of
        None \<Rightarrow> Some (False, s)
      | Some first \<Rightarrow>
          (if Data (heap s first) = v then Some (True, snd (DeleteFirst s))
           else deleteByValue_loop v s first))"

subsection \<open>Queries\<close>

partial_function (option) search_loop ::
    "(addr \<Rightarrow> Node) \<Rightarrow> int \<Rightarrow> addr option \<Rightarrow> int \<Rightarrow> int option" where
  "search_loop h v current index =
     (case current of
        None \<Rightarrow> Some (- 1)
      | Some c \<Rightarrow>
          (if Data (h c) = v then Some index
           else search_loop h v (Next (h c)) (index + 1)))"

definition Search :: "int \<Rightarrow> LinkedList \<Rightarrow> int option" where
  "Search v s = search_loop (heap s) v (Head s) 0"

definition Get :: "int \<Rightarrow> LinkedList \<Rightarrow> ((error + int) \<times> LinkedList) exec" where
  "Get position s =
     (if position < 0 \<or> position \<ge> Size s then Done (Inl (InvalidPosition position), s)
      else
        (case for_next (heap s) (Head s) 0 position of
           Panic \<Rightarrow> Panic
         | Done None \<Rightarrow> Panic
         | Done (Some current) \<Rightarrow> Done (Inr (Data (heap s current)), s)))"

partial_function (option) findMiddle_loop ::
    "(addr \<Rightarrow> Node) \<Rightarrow> addr option \<Rightarrow> addr option \<Rightarrow> addr option exec option" where
  "findMiddle_loop h slow fast =
     (case fast of
        None \<Rightarrow> Some (Done slow)
      | Some f \<Rightarrow>
          (case Next (h f) of
             None \<Rightarrow> Some (Done slow)
           | Some fn \<Rightarrow>
               (case slow of
                  None \<Rightarrow> Some Panic
                | Some sl \<Rightarrow> findMiddle_loop h (Next (h sl)) (Next (h fn)))))"

definition FindMiddle :: "LinkedList \<Rightarrow> ((error + int) \<times> LinkedList) exec option" where
  "FindMiddle s =
     (case Head s of
        None \<Rightarrow> Some (Done (Inl EmptyList, s))
      | Some _ \<Rightarrow>
          (case findMiddle_loop (heap s) (Head s) (Head s) of
             None \<Rightarrow> None
           | Some Panic \<Rightarrow> Some Panic
           | Some (Done None) \<Rightarrow> Some Panic
           | Some (Done (Some sl)) \<Rightarrow> Some (Done (Inr (Data (heap s sl)), s))))"

partial_function (option) hasCycle_loop ::
    "(addr \<Rightarrow> Node) \<Rightarrow> addr option \<Rightarrow> addr option \<Rightarrow> bool exec option" where
  "hasCycle_loop h slow fast =
     (case fast of
        None \<Rightarrow> Some (Done False)
      | Some f \<Rightarrow>
          (case Next (h f) of
             None \<Rightarrow> Some (Done False)
           | Some fn \<Rightarrow>
               (case slow of
                  None \<Rightarrow> Some Panic
                | Some sl \<Rightarrow>
                    (if Next (h sl) = Next (h fn) then Some (Done True)
                     else hasCycle_loop h (Next (h sl)) (Next (h fn))))))"

definition HasCycle :: "LinkedList \<Rightarrow> bool exec option" where
  "HasCycle s =
     (if IsEmpty s then Some (Done False)
      else hasCycle_loop (heap s) (Head s) (Head s))"

partial_function (option) toSlice_loop ::
    "(addr \<Rightarrow> Node) \<Rightarrow> int list \<Rightarrow> addr option \<Rightarrow> int list option" where
  "toSlice_loop h result current =
     (case current of
        None \<Rightarrow> Some result
      | Some c \<Rightarrow> toSlice_loop h (result @ [Data (h c)]) (Next (h c)))"

text \<open>\<open>make([]int, 0, ll.Size)\<close> panics when the capacity is negative.\<close>

definition ToSlice :: "LinkedList \<Rightarrow> int list exec option" where
  "ToSlice s =
     (if Size s < 0 then Some Panic
      else map_option Done (toSlice_loop (heap s) [] (Head s)))"

subsection \<open>Restructuring\<close>

partial_function (option) reverse_loop ::
    "(addr \<Rightarrow> Node) \<Rightarrow> addr option \<Rightarrow> addr option \<Rightarrow> ((addr \<Rightarrow> Node) \<times> addr option) option" where
  "reverse_loop h prev current =
     (case current of
        None \<Rightarrow> Some (h, prev)
      | Some c \<Rightarrow> reverse_loop (h(c := (h c)\<lparr>Next := prev\<rparr>)) (Some c) (Next (h c)))"

definition Reverse :: "LinkedList \<Rightarrow> LinkedList option" where
  "Reverse s =
     (case reverse_loop (heap s) None (Head s) of
        None \<Rightarrow> None
      | Some (h, prev) \<Rightarrow> Some (s\<lparr>heap := h, Head := prev\<rparr>))"

text \<open>
  \<open>seen\<close> is a \<open>map[int]bool\<close>: reading a missing key gives \<open>false\<close>.
\<close>

definition seen_get :: "(int \<rightharpoonup> bool) \<Rightarrow> int \<Rightarrow> bool" where
  "seen_get seen k = (case seen k of None \<Rightarrow> False | Some b \<Rightarrow> b)"

partial_function (option) removeDuplicates_loop ::
    "(int \<rightharpoonup> bool) \<Rightarrow> LinkedList \<Rightarrow> addr \<Rightarrow> LinkedList option" where
  "removeDuplicates_loop seen s current =
     (case Next (heap s current) of
        None \<Rightarrow> Some s
      | Some n \<Rightarrow>
          (if seen_get seen (Data (heap s n))
           then removeDuplicates_loop seen
                  (s\<lparr>heap := (heap s)(current := (heap s current)\<lparr>Next := Next (heap s n)\<rparr>),
                     Size := Size s - 1\<rparr>) current
           else removeDuplicates_loop (seen(Data (heap s n) \<mapsto> True)) s n))"

definition RemoveDuplicates :: "LinkedList \<Rightarrow> LinkedList option" where
  "RemoveDuplicates s =
     (case Head s of
        None \<Rightarrow> Some s
      | Some current \<Rightarrow>
          removeDuplicates_loop (Map.empty(Data (heap s current) \<mapsto> True)) s current)"

definition Clear :: "LinkedList \<Rightarrow> LinkedList" where
  "Clear s = s\<lparr>Head := None, Size := 0\<rparr>"

section \<open>Abstraction of the heap: chains and well-formed lists\<close>

text \<open>
  \<open>chain h p as\<close>: following \<open>Next\<close> from the pointer \<open>p\<close> visits exactly the
  addresses \<open>as\<close>, in this order, and then reaches nil.
\<close>

primrec chain :: "(addr \<Rightarrow> Node) \<Rightarrow> addr option \<Rightarrow> addr list \<Rightarrow> bool" where
  "chain h p [] = (p = None)"
| "chain h p (a # as) = (p = Some a \<and> chain h (Next (h a)) as)"

definition datas :: "(addr \<Rightarrow> Node) \<Rightarrow> addr list \<Rightarrow> int list" where
  "datas h as = map (\<lambda>a. Data (h a)) as"

text \<open>
  A well-formed list state: the nodes from \<open>Head\<close> form a nil-terminated chain \<open>as\<close>,
  \<open>Size\<close> is its length, and every node of it has been allocated.
\<close>

definition wellformed :: "LinkedList \<Rightarrow> addr list \<Rightarrow> bool" where
  "wellformed s as =
     (chain (heap s) (Head s) as \<and> Size s = int (length as) \<and> list_all (\<lambda>a. a < fresh s) as)"

definition valid :: "LinkedList \<Rightarrow> bool" where
  "valid s = (\<exists>as. wellformed s as)"

definition first_ptr :: "addr list \<Rightarrow> addr option" where
  "first_ptr as = (case as of [] \<Rightarrow> None | a # _ \<Rightarrow> Some a)"

subsection \<open>First occurrences\<close>

text \<open>The values the loop of \<open>RemoveDuplicates\<close> keeps, as a function of the values it visits.\<close>

fun dedup :: "(int \<rightharpoonup> bool) \<Rightarrow> int list \<Rightarrow> int list" where
  "dedup seen [] = []"
| "dedup seen (x # xs) =
     (if seen_get seen x then dedup seen xs else x # dedup (seen(x \<mapsto> True)) xs)"

text \<open>
  The specification's words: position \<open>i\<close> holds a first occurrence when its value
  occurs at no earlier position; the result keeps exactly these positions, in order.
\<close>

definition first_occurrences :: "int list \<Rightarrow> int list" where
  "first_occurrences xs =
     map (\<lambda>i. xs ! i) (filter (\<lambda>i. xs ! i \<notin> set (take i xs)) [0..<length xs])"

subsection \<open>Reachable lists\<close>

text \<open>
  The list states the public operations can produce, starting from \<open>NewLinkedList\<close>.
  A call that returns an error also returns a state (the receiver after the call).
\<close>

inductive reachable :: "LinkedList \<Rightarrow> bool" where
  new: "reachable NewLinkedList"
| prepend: "reachable s \<Longrightarrow> reachable (Prepend d s)"
| append: "reachable s \<Longrightarrow> Append d s = Some s' \<Longrightarrow> reachable s'"
| insertAt: "reachable s \<Longrightarrow> InsertAt d p s = Done (e, s') \<Longrightarrow> reachable s'"
| deleteFirst: "reachable s \<Longrightarrow> DeleteFirst s = (r, s') \<Longrightarrow> reachable s'"
| deleteLast: "reachable s \<Longrightarrow> DeleteLast s = Some (Done (r, s')) \<Longrightarrow> reachable s'"
| deleteAt: "reachable s \<Longrightarrow> DeleteAt p s = Done (r, s') \<Longrightarrow> reachable s'"
| deleteByValue: "reachable s \<Longrightarrow> DeleteByValue v s = Some (b, s') \<Longrightarrow> reachable s'"
| reverse: "reachable s \<Longrightarrow> Reverse s = Some s' \<Longrightarrow> reachable s'"
| removeDuplicates: "reachable s \<Longrightarrow> RemoveDuplicates s = Some s' \<Longrightarrow> reachable s'"
| clear: "reachable s \<Longrightarrow> reachable (Clear s)"

text \<open>
  The lists built with the insertion operations only; \<open>InsertAt\<close> with a position in
  \<open>0..Size\<close>.
\<close>

inductive built :: "LinkedList \<Rightarrow> bool" where
  new: "built NewLinkedList"
| prepend: "built s \<Longrightarrow> built (Prepend d s)"
| append: "built s \<Longrightarrow> Append d s = Some s' \<Longrightarrow> built s'"
| insertAt: "built s \<Longrightarrow> 0 \<le> p \<Longrightarrow> p \<le> Size s \<Longrightarrow> InsertAt d p s = Done (e, s') \<Longrightarrow> built s'"

subsection \<open>Example lists\<close>

definition four_nodes :: LinkedList where
  "four_nodes = Prepend 1 (Prepend 2 (Prepend 3 (Prepend 4 NewLinkedList)))"

definition two_nodes :: LinkedList where
  "two_nodes = Prepend (- 1) (Prepend 2 NewLinkedList)"

definition nine_nodes :: LinkedList where
  "nine_nodes =
     Prepend 1 (Prepend 2 (Prepend 2 (Prepend 3 (Prepend 3 (Prepend 3 (Prepend 4 (Prepend 5
       (Prepend 5 NewLinkedList))))))))"

section \<open>Slices of integers (merge\_sort.go, binary search)\<close>

text \<open>
  A \<open>[]int\<close> is modelled by the list of its elements and an index by an integer, as in
  Go; an access outside \<open>0..len-1\<close>, a slice expression outside \<open>0..len\<close> and \<open>make\<close>
  with a negative length panic. Go's \<open>int\<close> is modelled by the unbounded integers: all
  the arithmetic is on indices between \<open>-1\<close> and \<open>len\<close> and on counts of pairs of
  positions.
\<close>

subsection \<open>The callers' arrays\<close>

text \<open>
  \<open>MergeSort\<close> and \<open>CountInversions\<close> receive a slice and return one. To tell the
  array they return from the array they were given, slices are addresses into a store
  of arrays (each slice covering its whole array); \<open>unused\<close> is the next address
  \<open>make\<close> hands out. The helpers work in place on the one array they are given,
  and the temporary arrays of \<open>merge\<close> are local to it.
\<close>

record store =
  arrays :: "addr \<Rightarrow> int list"
  unused :: addr

subsection \<open>Indexing, slicing, make and copy\<close>

definition index :: "int list \<Rightarrow> int \<Rightarrow> int exec" where
  "index arr i = (if 0 \<le> i \<and> i < int (length arr) then Done (arr ! nat i) else Panic)"

definition assign :: "int list \<Rightarrow> int \<Rightarrow> int \<Rightarrow> int list exec" where
  "assign arr i v = (if 0 \<le> i \<and> i < int (length arr) then Done (arr[nat i := v]) else Panic)"

definition make :: "int \<Rightarrow> int list exec" where
  "make n = (if n < 0 then Panic else Done (replicate (nat n) 0))"

definition slice :: "int list \<Rightarrow> int \<Rightarrow> int \<Rightarrow> int list exec" where
  "slice arr lo hi =
     (if 0 \<le> lo \<and> lo \<le> hi \<and> hi \<le> int (length arr)
      then Done (take (nat (hi - lo)) (drop (nat lo) arr)) else Panic)"

text \<open>\<open>copy(dst, src)\<close> overwrites the first \<open>min(len(dst), len(src))\<close> elements of \<open>dst\<close>.\<close>

definition copy :: "int list \<Rightarrow> int list \<Rightarrow> int list" where
  "copy dst src =
     take (min (length dst) (length src)) src @ drop (min (length dst) (length src)) dst"

text \<open>Go's integer division truncates toward zero.\<close>

definition quot :: "int \<Rightarrow> int \<Rightarrow> int" where
  "quot a b = sgn a * sgn b * (\<bar>a\<bar> div \<bar>b\<bar>)"

subsection \<open>FindInsertionPoint\<close>

function findInsertionPoint_loop :: "int list \<Rightarrow> int \<Rightarrow> int \<Rightarrow> int \<Rightarrow> int exec" where
  "findInsertionPoint_loop arr target left right =
     (if left < right then
        (let mid = left + quot (right - left) 2 in
           (case index arr mid of
              Panic \<Rightarrow> Panic
            | Done v \<Rightarrow>
                (if v < target then findInsertionPoint_loop arr target (mid + 1) right
                 else findInsertionPoint_loop arr target left mid)))
      else Done left)"
  by pat_completeness auto
termination
  by (relation "measure (\<lambda>(arr, target, left, right). nat (right - left))")
     (auto simp: quot_def sgn_if)

declare findInsertionPoint_loop.simps [simp del]

definition FindInsertionPoint :: "int list \<Rightarrow> int \<Rightarrow> int exec" where
  "FindInsertionPoint arr target = findInsertionPoint_loop arr target 0 (int (length arr))"

subsection \<open>merge and MergeSort\<close>

function merge_loop1 ::
    "int list \<Rightarrow> int list \<Rightarrow> int \<Rightarrow> int \<Rightarrow> int list \<Rightarrow> int \<Rightarrow> int \<Rightarrow> int
     \<Rightarrow> (int list \<times> int \<times> int \<times> int) exec" where
  "merge_loop1 leftArr rightArr leftSize rightSize arr i j k =
     (if i < leftSize \<and> j < rightSize then
        (case index leftArr i of
           Panic \<Rightarrow> Panic
         | Done l \<Rightarrow>
             (case index rightArr j of
                Panic \<Rightarrow> Panic
              | Done r \<Rightarrow>
                  (if l \<le> r then
                     (case assign arr k l of
                        Panic \<Rightarrow> Panic
                      | Done arr' \<Rightarrow>
                          merge_loop1 leftArr rightArr leftSize rightSize arr' (i + 1) j (k + 1))
                   else
                     (case assign arr k r of
                        Panic \<Rightarrow> Panic
                      | Done arr' \<Rightarrow>
                          merge_loop1 leftArr rightArr leftSize rightSize arr' i (j + 1) (k + 1)))))
      else Done (arr, i, j, k))"
  by pat_completeness auto
termination
  by (relation "measure (\<lambda>(leftArr, rightArr, leftSize, rightSize, arr, i, j, k).
        nat (leftSize - i) + nat (rightSize - j))") auto

text \<open>
  The two loops that copy what is left of a temporary array \<open>tmp\<close> (bound \<open>n\<close>) into
  \<open>arr\<close>; they have the same shape, with \<open>i\<close> or \<open>j\<close> as the counter.
\<close>

function copy_rest ::
    "int list \<Rightarrow> int \<Rightarrow> int list \<Rightarrow> int \<Rightarrow> int \<Rightarrow> (int list \<times> int \<times> int) exec" where
  "copy_rest tmp n arr i k =
     (if i < n then
        (case index tmp i of
           Panic \<Rightarrow> Panic
         | Done v \<Rightarrow>
             (case assign arr k v of
                Panic \<Rightarrow> Panic
              | Done arr' \<Rightarrow> copy_rest tmp n arr' (i + 1) (k + 1)))
      else Done (arr, i, k))"
  by pat_completeness auto
termination
  by (relation "measure (\<lambda>(tmp, n, arr, i, k). nat (n - i))") auto

declare merge_loop1.simps [simp del] copy_rest.simps [simp del]

definition merge :: "int list \<Rightarrow> int \<Rightarrow> int \<Rightarrow> int \<Rightarrow> int list exec" where
  "merge arr left mid right =
     (let leftSize = mid - left + 1; rightSize = right - mid in
      case make leftSize of
        Panic \<Rightarrow> Panic
      | Done leftArr0 \<Rightarrow>
     (case make rightSize of
        Panic \<Rightarrow> Panic
      | Done rightArr0 \<Rightarrow>
     (case slice arr left (mid + 1) of
        Panic \<Rightarrow> Panic
      | Done s1 \<Rightarrow>
     (case slice arr (mid + 1) (right + 1) of
        Panic \<Rightarrow> Panic
      | Done s2 \<Rightarrow>
     (let leftArr = copy leftArr0 s1; rightArr = copy rightArr0 s2 in
      case merge_loop1 leftArr rightArr leftSize rightSize arr 0 0 left of
        Panic \<Rightarrow> Panic
      | Done (arr1, i, j, k) \<Rightarrow>
     (case copy_rest leftArr leftSize arr1 i k of
        Panic \<Rightarrow> Panic
      | Done (arr2, i2, k2) \<Rightarrow>
     (case copy_rest rightArr rightSize arr2 j k2 of
        Panic \<Rightarrow> Panic
      | Done (arr3, j3, k3) \<Rightarrow> Done arr3)))))))"

function mergeSortHelper :: "int list \<Rightarrow> int \<Rightarrow> int \<Rightarrow> int list exec" where
  "mergeSortHelper arr left right =
     (if left < right then
        (let mid = left + quot (right - left) 2 in
           (case mergeSortHelper arr left mid of
              Panic \<Rightarrow> Panic
            | Done arr1 \<Rightarrow>
                (case mergeSortHelper arr1 (mid + 1) right of
                   Panic \<Rightarrow> Panic
                 | Done arr2 \<Rightarrow> merge arr2 left mid right)))
      else Done arr)"
  by pat_completeness auto
termination
  by (relation "measure (\<lambda>(arr, left, right). nat (right - left))")
     (auto simp: quot_def sgn_if)

declare mergeSortHelper.simps [simp del]

subsection \<open>mergeAndCount and CountInversions\<close>






subsection \<open>MergeSort and CountInversions\<close>

definition MergeSort :: "addr \<Rightarrow> store \<Rightarrow> (addr \<times> store) exec" where
  "MergeSort arr st =
     (if int (length (arrays st arr)) \<le> 1 then Done (arr, st)
      else
        (case make (int (length (arrays st arr))) of
           Panic \<Rightarrow> Panic
         | Done result0 \<Rightarrow>
             (let result = copy result0 (arrays st arr) in
              case mergeSortHelper result 0 (int (length result) - 1) of
                Panic \<Rightarrow> Panic
              | Done result' \<Rightarrow>
                  Done (unused st,
                    st\<lparr>arrays := (arrays st)(unused st := result'), unused := Suc (unused st)\<rparr>))))"



subsection \<open>The loops as functions on lists\<close>

text \<open>
  The list that the three loops of \<open>merge\<close> write, as a function of the two temporary
  arrays; on a tie the element of the left array goes first.
\<close>

fun fmerge :: "int list \<Rightarrow> int list \<Rightarrow> int list" where
  "fmerge [] ys = ys"
| "fmerge xs [] = xs"
| "fmerge (x # xs) (y # ys) =
     (if x \<le> y then x # fmerge xs (y # ys) else y # fmerge (x # xs) ys)"

text \<open>What the first loop of \<open>mergeAndCount\<close> adds to \<open>inversions\<close>.\<close>

fun fcount :: "int list \<Rightarrow> int list \<Rightarrow> int" where
  "fcount [] ys = 0"
| "fcount xs [] = 0"
| "fcount (x # xs) (y # ys) =
     (if x \<le> y then fcount xs (y # ys) else int (length (x # xs)) + fcount (x # xs) ys)"

text \<open>The three loops of \<open>merge\<close> and of \<open>mergeAndCount\<close>, one after the other.\<close>

definition merge_loops ::
    "int list \<Rightarrow> int list \<Rightarrow> int \<Rightarrow> int \<Rightarrow> int list \<Rightarrow> int \<Rightarrow> int \<Rightarrow> int \<Rightarrow> int list exec" where
  "merge_loops leftArr rightArr leftSize rightSize arr i j k =
     (case merge_loop1 leftArr rightArr leftSize rightSize arr i j k of
        Panic \<Rightarrow> Panic
      | Done (arr1, i1, j1, k1) \<Rightarrow>
     (case copy_rest leftArr leftSize arr1 i1 k1 of
        Panic \<Rightarrow> Panic
      | Done (arr2, i2, k2) \<Rightarrow>
     (case copy_rest rightArr rightSize arr2 j1 k2 of
        Panic \<Rightarrow> Panic
      | Done (arr3, j3, k3) \<Rightarrow> Done arr3)))"



definition cross :: "int list \<Rightarrow> int list \<Rightarrow> nat" where
  "cross xs ys = sum_list (map (\<lambda>x. length (filter (\<lambda>y. y < x) ys)) xs)"

text \<open>Stores holding one array, at address 0.\<close>

definition one_array :: "int list \<Rightarrow> store" where
  "one_array xs = \<lparr>arrays = (\<lambda>_. [])(0 := xs), unused = 1\<rparr>"

section \<open>Properties of chains\<close>

lemma chain_None [simp]: "chain h None as \<longleftrightarrow> as = []"
  by (cases as) auto

lemma chain_unique: "chain h p as \<Longrightarrow> chain h p bs \<Longrightarrow> as = bs"
proof (induction as arbitrary: p bs)
  case Nil
  then show ?case by simp
next
  case (Cons a as)
  then show ?case by (cases bs) auto
qed

lemma chain_suffix: "chain h p (as @ b # bs) \<Longrightarrow> chain h (Next (h b)) bs"
  by (induction as arbitrary: p) auto

lemma chain_head_notin:
  assumes "chain h (Next (h a)) as"
  shows "a \<notin> set as"
proof
  assume "a \<in> set as"
  then obtain us vs where split: "as = us @ a # vs"
    by (auto simp: in_set_conv_decomp)
  with assms have "chain h (Next (h a)) vs"
    using chain_suffix by blast
  with assms have "as = vs"
    by (rule chain_unique)
  with split show False by simp
qed

lemma chain_distinct: "chain h p as \<Longrightarrow> distinct as"
  by (induction as arbitrary: p) (auto dest: chain_head_notin)

lemma chain_frame:
  "(\<And>a. a \<in> set as \<Longrightarrow> Next (h' a) = Next (h a)) \<Longrightarrow> chain h' p as = chain h p as"
  by (induction as arbitrary: p) auto

lemma chain_upd [simp]: "a \<notin> set as \<Longrightarrow> chain (h(a := v)) p as = chain h p as"
  by (rule chain_frame) auto

lemma datas_frame:
  "(\<And>a. a \<in> set as \<Longrightarrow> Data (h' a) = Data (h a)) \<Longrightarrow> datas h' as = datas h as"
  by (simp add: datas_def)

lemma datas_upd [simp]: "a \<notin> set as \<Longrightarrow> datas (h(a := v)) as = datas h as"
  by (rule datas_frame) auto

lemma datas_simps [simp]:
  "datas h [] = []"
  "datas h (a # as) = Data (h a) # datas h as"
  "datas h (as @ bs) = datas h as @ datas h bs"
  "length (datas h as) = length as"
  by (simp_all add: datas_def)

lemma wellformed_unique: "wellformed s as \<Longrightarrow> wellformed s bs \<Longrightarrow> as = bs"
  unfolding wellformed_def by (blast intro: chain_unique)

section \<open>What each operation does to a well-formed list\<close>

lemma first_ptr_simps [simp]:
  "first_ptr [] = None"
  "first_ptr (a # as) = Some a"
  by (simp_all add: first_ptr_def)

lemma chain_first_ptr: "chain h p as \<Longrightarrow> p = first_ptr as"
  by (cases as) auto

lemma chain_drop_first_ptr: "chain h p as \<Longrightarrow> chain h (first_ptr (drop k as)) (drop k as)"
proof (induction k arbitrary: p as)
  case 0
  then show ?case using chain_first_ptr by auto
next
  case (Suc k)
  show ?case
  proof (cases as)
    case Nil
    then show ?thesis by simp
  next
    case (Cons a bs)
    with Suc.prems have "chain h (Next (h a)) bs" by simp
    from Suc.IH [OF this] Cons show ?thesis by simp
  qed
qed

lemma chain_relink_frame:
  assumes "chain h p (us @ c # ws)" and "chain h' q vs" and "Next (h' c) = q"
    and "\<And>a. a \<in> set us \<Longrightarrow> Next (h' a) = Next (h a)"
  shows "chain h' p (us @ c # vs)"
  using assms(1,4)
proof (induction us arbitrary: p)
  case Nil
  with assms(2,3) show ?case by simp
next
  case (Cons u us)
  then show ?case by simp
qed

lemma chain_relink:
  assumes "chain h p (us @ c # ws)" and "chain h q vs" and "c \<notin> set vs"
  shows "chain (h(c := (h c)\<lparr>Next := q\<rparr>)) p (us @ c # vs)"
proof (rule chain_relink_frame [OF assms(1)])
  show "chain (h(c := (h c)\<lparr>Next := q\<rparr>)) q vs"
    using assms(2,3) by simp
  show "Next ((h(c := (h c)\<lparr>Next := q\<rparr>)) c) = q"
    by simp
  from assms(1) have "distinct (us @ c # ws)" by (rule chain_distinct)
  then show "\<And>a. a \<in> set us \<Longrightarrow> Next ((h(c := (h c)\<lparr>Next := q\<rparr>)) a) = Next (h a)"
    by auto
qed

lemma wellformedI:
  "chain (heap s) (Head s) as \<Longrightarrow> Size s = int (length as) \<Longrightarrow> \<forall>a\<in>set as. a < fresh s
   \<Longrightarrow> wellformed s as"
  by (simp add: wellformed_def list_all_iff)

lemma wellformedD:
  assumes "wellformed s as"
  shows "chain (heap s) (Head s) as" and "Size s = int (length as)"
    and "\<forall>a\<in>set as. a < fresh s" and "fresh s \<notin> set as" and "distinct as"
  using assms by (auto simp: wellformed_def list_all_iff dest: chain_distinct)

subsection \<open>Prepend, Append, InsertAt\<close>

lemma Prepend_wellformed:
  assumes "wellformed s as"
  shows "wellformed (Prepend d s) (fresh s # as)"
    and "datas (heap (Prepend d s)) (fresh s # as) = d # datas (heap s) as"
proof -
  note wf = wellformedD [OF assms]
  show "wellformed (Prepend d s) (fresh s # as)"
    using wf by (auto simp: Prepend_def alloc_def intro!: wellformedI simp: less_Suc_eq)
  show "datas (heap (Prepend d s)) (fresh s # as) = d # datas (heap s) as"
    using wf(4) by (simp add: Prepend_def alloc_def)
qed

lemma append_loop_last:
  "chain h (Some c) (c # as) \<Longrightarrow> append_loop h c = Some (last (c # as))"
proof (induction as arbitrary: c)
  case Nil
  then show ?case by (subst append_loop.simps) simp
next
  case (Cons a as)
  then have "append_loop h a = Some (last (a # as))" by simp
  with Cons.prems show ?case by (subst append_loop.simps) simp
qed

lemma Append_wellformed:
  assumes "wellformed s as"
  shows "\<exists>s'. Append d s = Some s' \<and> wellformed s' (as @ [fresh s])
           \<and> datas (heap s') (as @ [fresh s]) = datas (heap s) as @ [d]"
proof (cases as)
  case Nil
  with wellformedD [OF assms] show ?thesis
    by (auto simp: Append_def alloc_def intro!: wellformedI)
next
  case (Cons c cs)
  note wf = wellformedD [OF assms]
  define n where "n = fresh s"
  define h0 where "h0 = (heap s)(n := \<lparr>Data = d, Next = None\<rparr>)"
  define l where "l = last as"
  define h1 where "h1 = h0(l := (h0 l)\<lparr>Next := Some n\<rparr>)"
  have nfresh: "n \<notin> set as" using wf(4) by (simp add: n_def)
  have lin: "l \<in> set as" using Cons by (simp add: l_def)
  with nfresh have ln: "l \<noteq> n" by auto
  have c0: "chain h0 (Head s) as" using wf(1) nfresh by (simp add: h0_def)
  then have loop: "append_loop h0 c = Some l"
    using Cons append_loop_last [of h0 c cs] by (simp add: l_def)
  have split: "as = butlast as @ l # []" using Cons by (simp add: l_def)
  have "chain h0 (Some n) [n]" by (simp add: h0_def)
  with c0 split have "chain h1 (Head s) (butlast as @ l # [n])"
    unfolding h1_def using chain_relink [of h0 "Head s" "butlast as" l "[]" "Some n" "[n]"] ln
    by simp
  with split have c1: "chain h1 (Head s) (as @ [n])"
    by (metis append.assoc append_Cons append_Nil)
  have d1: "datas h1 (as @ [n]) = datas (heap s) as @ [d]"
    using nfresh ln by (auto simp: h1_def h0_def datas_def)
  let ?s' = "s\<lparr>heap := h1, fresh := Suc n, Size := Size s + 1\<rparr>"
  have "Head s = Some c" using wf(1) Cons by simp
  then have "Append d s = Some ?s'"
    using loop by (simp add: Append_def alloc_def h1_def h0_def n_def)
  moreover have "wellformed ?s' (as @ [n])"
    using c1 wf(2,3) by (auto simp: n_def intro!: wellformedI simp: less_Suc_eq)
  ultimately show ?thesis using d1 by (auto simp: n_def)
qed

lemma for_next_chain:
  "chain h p as \<Longrightarrow> i \<le> n \<Longrightarrow> nat (n - i) \<le> length as
   \<Longrightarrow> for_next h p i n = Done (first_ptr (drop (nat (n - i)) as))"
proof (induction h p i n arbitrary: as rule: for_next.induct)
  case (1 h current i n)
  show ?case
  proof (cases "i < n")
    case False
    with "1.prems" show ?thesis
      using chain_first_ptr by (subst for_next.simps) auto
  next
    case True
    with "1.prems" obtain c cs where as: "as = c # cs"
      by (cases as) auto
    with "1.prems" have cur: "current = Some c" and tl: "chain h (Next (h c)) cs"
      by auto
    have step: "nat (n - i) = Suc (nat (n - (i + 1)))" using True by simp
    have "for_next h (Next (h c)) (i + 1) n = Done (first_ptr (drop (nat (n - (i + 1))) cs))"
      using "1.IH" [OF True cur tl] True "1.prems"(3) as by simp
    then show ?thesis
      using True cur as step by (subst for_next.simps) simp
  qed
qed

lemma InsertAt_wellformed:
  assumes "wellformed s as" and "0 \<le> p" and "p \<le> Size s"
  shows "\<exists>s'. InsertAt d p s = Done (None, s')
           \<and> wellformed s' (take (nat p) as @ fresh s # drop (nat p) as)
           \<and> datas (heap s') (take (nat p) as @ fresh s # drop (nat p) as)
               = take (nat p) (datas (heap s) as) @ d # drop (nat p) (datas (heap s) as)"
proof (cases "p = 0")
  case True
  with assms Prepend_wellformed [OF assms(1), of d] show ?thesis
    by (simp add: InsertAt_def)
next
  case False
  note wf = wellformedD [OF assms(1)]
  define k where "k = nat (p - 1)"
  have k: "k < length as" "nat p = Suc k" using False assms(2,3) wf(2) by (auto simp: k_def)
  define n where "n = fresh s"
  define h0 where "h0 = (heap s)(n := \<lparr>Data = d, Next = None\<rparr>)"
  define c where "c = as ! k"
  define us where "us = take k as"
  define vs where "vs = drop (Suc k) as"
  have split: "as = us @ c # vs"
    using k(1) by (simp add: us_def vs_def c_def id_take_nth_drop)
  have nfresh: "n \<notin> set as" using wf(4) by (simp add: n_def)
  then have cn: "c \<noteq> n" using split by auto
  have c0: "chain h0 (Head s) as" using wf(1) nfresh by (simp add: h0_def)
  have "for_next h0 (Head s) 0 (p - 1) = Done (first_ptr (drop k as))"
    using for_next_chain [OF c0, of 0 "p - 1"] False assms(2) k(1) by (simp add: k_def)
  then have walk: "for_next h0 (Head s) 0 (p - 1) = Done (Some c)"
    using k(1) by (simp add: c_def Cons_nth_drop_Suc [symmetric])
  define h1 where "h1 = h0(n := (h0 n)\<lparr>Next := Next (h0 c)\<rparr>)"
  define h2 where "h2 = h1(c := (h1 c)\<lparr>Next := Some n\<rparr>)"
  have c1: "chain h1 (Head s) (us @ c # vs)"
    using c0 nfresh split by (simp add: h1_def)
  have "chain h0 (Next (h0 c)) vs" using c0 split chain_suffix by blast
  then have "chain h1 (Next (h0 c)) vs" using nfresh split by (simp add: h1_def)
  then have "chain h1 (Some n) (n # vs)" by (simp add: h1_def)
  moreover have "c \<notin> set (n # vs)" using cn wf(5) split by auto
  ultimately have c2: "chain h2 (Head s) (us @ c # n # vs)"
    unfolding h2_def using c1 by (rule chain_relink [rotated])
  have tk: "take (nat p) as = us @ [c]" "drop (nat p) as = vs"
    using k by (simp_all add: us_def vs_def take_Suc_conv_app_nth c_def)
  have d2: "datas h2 (us @ c # n # vs) = datas (heap s) (us @ [c]) @ d # datas (heap s) vs"
    using nfresh cn split by (auto simp: h2_def h1_def h0_def datas_def)
  let ?s' = "s\<lparr>heap := h2, fresh := Suc n, Size := Size s + 1\<rparr>"
  have "InsertAt d p s = Done (None, ?s')"
    using False assms(2,3) walk
    by (simp add: InsertAt_def alloc_def Let_def h2_def h1_def h0_def n_def)
  moreover have "wellformed ?s' (us @ c # n # vs)"
    using c2 wf(2,3) split by (auto simp: n_def intro!: wellformedI simp: less_Suc_eq)
  moreover have "take (nat p) (datas (heap s) as) = datas (heap s) (us @ [c])"
    "drop (nat p) (datas (heap s) as) = datas (heap s) vs"
    using tk by (simp_all add: datas_def take_map drop_map del: map_append)
  ultimately show ?thesis using d2 tk by (auto simp: n_def)
qed

subsection \<open>DeleteFirst, DeleteLast, DeleteAt, Get\<close>

lemma chain_nth_next:
  assumes "chain h p as" and "k < length as"
  shows "Next (h (as ! k)) = first_ptr (drop (Suc k) as)"
    and "chain h (Next (h (as ! k))) (drop (Suc k) as)"
proof -
  from assms(1) have "chain h (first_ptr (drop k as)) (drop k as)"
    by (rule chain_drop_first_ptr)
  moreover have "drop k as = as ! k # drop (Suc k) as"
    using assms(2) by (simp add: Cons_nth_drop_Suc)
  ultimately show "chain h (Next (h (as ! k))) (drop (Suc k) as)" by simp
  then show "Next (h (as ! k)) = first_ptr (drop (Suc k) as)" by (rule chain_first_ptr)
qed

lemma split_two:
  "Suc k < length as \<Longrightarrow> as = take k as @ as ! k # as ! Suc k # drop (Suc (Suc k)) as"
  by (metis Cons_nth_drop_Suc Suc_lessD id_take_nth_drop)

lemma DeleteFirst_wellformed:
  assumes "wellformed s (a # as)"
  shows "\<exists>s'. DeleteFirst s = (Inr (Data (heap s a)), s') \<and> wellformed s' as \<and> heap s' = heap s"
  using wellformedD [OF assms] by (auto simp: DeleteFirst_def intro!: wellformedI)

lemma deleteLast_loop_chain:
  "chain h (Some c) (c # bs) \<Longrightarrow> bs \<noteq> []
   \<Longrightarrow> deleteLast_loop h c = Some (Done (last (butlast (c # bs))))"
proof (induction bs arbitrary: c)
  case Nil
  then show ?case by simp
next
  case (Cons b bs)
  show ?case
  proof (cases bs)
    case Nil
    with Cons.prems show ?thesis by (subst deleteLast_loop.simps) simp
  next
    case (Cons b' bs')
    with Cons.prems have "chain h (Some b) (b # bs)" and "bs \<noteq> []" by auto
    then have "deleteLast_loop h b = Some (Done (last (butlast (b # bs))))"
      by (rule Cons.IH)
    with Cons.prems Cons show ?thesis by (subst deleteLast_loop.simps) simp
  qed
qed

lemma DeleteLast_wellformed:
  assumes "wellformed s as" and "as \<noteq> []"
  shows "\<exists>s'. DeleteLast s = Some (Done (Inr (last (datas (heap s) as)), s'))
           \<and> wellformed s' (butlast as)
           \<and> datas (heap s') (butlast as) = butlast (datas (heap s) as)"
proof -
  note wf = wellformedD [OF assms(1)]
  from assms(2) obtain a bs where as: "as = a # bs" by (cases as) auto
  show ?thesis
  proof (cases bs)
    case Nil
    with as wf show ?thesis
      by (auto simp: DeleteLast_def intro!: wellformedI)
  next
    case (Cons b bs')
    define h where "h = heap s"
    define k where "k = length as - 2"
    have k: "Suc k < length as" "Suc (Suc k) = length as" using as Cons by (simp_all add: k_def)
    define c where "c = as ! k"
    define l where "l = as ! Suc k"
    define us where "us = take k as"
    have split: "as = us @ c # l # []"
      using split_two [OF k(1)] k(2) by (simp add: us_def c_def l_def)
    have bl: "butlast as = us @ [c]" "last as = l"
      by (subst split, simp add: butlast_append)+
    have cur: "last (butlast (a # bs)) = c" using bl(1) as by simp
    have ch: "chain h (Head s) (us @ c # [l])" using wf(1) split by (simp add: h_def)
    have hd: "Head s = Some a" "Next (h a) = Some b"
      using wf(1) as Cons by (simp_all add: h_def)
    have "chain h (Some a) (a # bs)" using wf(1) as by (simp add: h_def)
    then have loop: "deleteLast_loop h a = Some (Done c)"
      using deleteLast_loop_chain [of h a bs] Cons cur by simp
    have nx: "Next (h c) = Some l"
      using chain_suffix [of h "Head s" us c "[l]"] ch by simp
    define h' where "h' = h(c := (h c)\<lparr>Next := None\<rparr>)"
    have ch': "chain h' (Head s) (us @ [c])"
      unfolding h'_def using chain_relink [OF ch, of None "[]"] by simp
    have d': "datas h' (us @ [c]) = butlast (datas h as)"
      by (subst split) (simp add: h'_def datas_def butlast_append)
    have dl: "last (datas h as) = Data (h l)"
      by (subst split) (simp add: datas_def)
    let ?s' = "s\<lparr>heap := h', Size := Size s - 1\<rparr>"
    have "DeleteLast s = Some (Done (Inr (Data (h l)), ?s'))"
      using hd loop nx by (simp add: DeleteLast_def h_def [symmetric] h'_def)
    moreover have "wellformed ?s' (us @ [c])"
    proof (rule wellformedI)
      show "chain (heap ?s') (Head ?s') (us @ [c])" using ch' by simp
      show "Size ?s' = int (length (us @ [c]))" using wf(2) k(2) by (simp add: us_def)
      have "set (us @ [c]) \<subseteq> set as"
        using bl(1) by (metis in_set_butlastD subsetI)
      then show "\<forall>a\<in>set (us @ [c]). a < fresh ?s'"
        using wf(3) by auto
    qed
    ultimately show ?thesis using d' dl bl by (auto simp: h_def)
  qed
qed

lemma DeleteAt_wellformed:
  assumes "wellformed s as" and "0 \<le> p" and "p < Size s"
  shows "\<exists>s'. DeleteAt p s = Done (Inr (datas (heap s) as ! nat p), s')
           \<and> wellformed s' (take (nat p) as @ drop (Suc (nat p)) as)
           \<and> datas (heap s') (take (nat p) as @ drop (Suc (nat p)) as)
               = take (nat p) (datas (heap s) as) @ drop (Suc (nat p)) (datas (heap s) as)"
proof (cases "p = 0")
  case True
  note wf = wellformedD [OF assms(1)]
  from assms(3) wf(2) True obtain a bs where as: "as = a # bs" by (cases as) auto
  from DeleteFirst_wellformed [OF assms(1) [unfolded as]] True assms(2,3) as
  show ?thesis by (auto simp: DeleteAt_def)
next
  case False
  note wf = wellformedD [OF assms(1)]
  define h where "h = heap s"
  define k where "k = nat (p - 1)"
  have k: "Suc k < length as" "nat p = Suc k" using False assms(2,3) wf(2) by (auto simp: k_def)
  define c where "c = as ! k"
  define n where "n = as ! Suc k"
  define us where "us = take k as"
  define vs where "vs = drop (Suc (Suc k)) as"
  have split: "as = us @ c # n # vs"
    using split_two [OF k(1)] by (simp add: us_def c_def n_def vs_def)
  have ch: "chain h (Head s) (us @ c # n # vs)" using wf(1) split by (simp add: h_def)
  have "for_next h (Head s) 0 (p - 1) = Done (first_ptr (drop k as))"
    using for_next_chain [of h "Head s" as 0 "p - 1"] wf(1) False assms(2) k(1)
    by (simp add: k_def h_def)
  then have walk: "for_next h (Head s) 0 (p - 1) = Done (Some c)"
    using k(1) by (simp add: c_def Cons_nth_drop_Suc [symmetric])
  have nx: "Next (h c) = Some n" "chain h (Next (h n)) vs"
    using chain_suffix [of h "Head s" us c "n # vs"] ch by simp_all
  have "distinct (us @ c # n # vs)" using wf(5) split by simp
  then have cvs: "c \<notin> set vs" by simp
  define h' where "h' = h(c := (h c)\<lparr>Next := Next (h n)\<rparr>)"
  have ch': "chain h' (Head s) (us @ c # vs)"
    unfolding h'_def using ch nx(2) cvs by (rule chain_relink)
  have tk: "take (nat p) as = us @ [c]" "drop (Suc (nat p)) as = vs" "as ! nat p = n"
    using k by (simp_all add: us_def vs_def n_def c_def take_Suc_conv_app_nth)
  have dd: "datas h' (us @ c # vs) = datas h (us @ c # vs)"
    by (simp add: h'_def datas_def)
  have dt: "take (nat p) (datas h as) = datas h (us @ [c])"
    "drop (Suc (nat p)) (datas h as) = datas h vs"
    "datas h as ! nat p = Data (h n)"
    using tk k by (simp_all add: datas_def take_map drop_map del: map_append)
  let ?s' = "s\<lparr>heap := h', Size := Size s - 1\<rparr>"
  have "DeleteAt p s = Done (Inr (Data (h n)), ?s')"
    using False assms(2,3) walk nx(1) by (simp add: DeleteAt_def h_def [symmetric] h'_def)
  moreover have "wellformed ?s' (us @ c # vs)"
  proof (rule wellformedI)
    show "chain (heap ?s') (Head ?s') (us @ c # vs)" using ch' by simp
    have "length as = Suc (length (us @ c # vs))" by (subst split) simp
    then show "Size ?s' = int (length (us @ c # vs))" using wf(2) by simp
    have "set as = set (us @ c # n # vs)" using split by simp
    then have "set (us @ c # vs) \<subseteq> set as" by auto
    then show "\<forall>a\<in>set (us @ c # vs). a < fresh ?s'" using wf(3) by auto
  qed
  ultimately show ?thesis using dd dt tk by (auto simp: h_def)
qed

lemma Get_wellformed:
  assumes "wellformed s as" and "0 \<le> p" and "p < Size s"
  shows "Get p s = Done (Inr (datas (heap s) as ! nat p), s)"
proof -
  note wf = wellformedD [OF assms(1)]
  have k: "nat p < length as" using assms(2,3) wf(2) by simp
  have "for_next (heap s) (Head s) 0 p = Done (first_ptr (drop (nat p) as))"
    using for_next_chain [OF wf(1), of 0 p] assms(2) k by simp
  then have "for_next (heap s) (Head s) 0 p = Done (Some (as ! nat p))"
    using k by (simp add: Cons_nth_drop_Suc [symmetric])
  then show ?thesis using assms(2,3) k by (simp add: Get_def datas_def)
qed

subsection \<open>DeleteByValue, Search, ToSlice\<close>

lemma deleteByValue_loop_chain:
  "chain (heap s) (Some c) (c # as) \<Longrightarrow>
   \<exists>b s' as'. deleteByValue_loop v s c = Some (b, s')
     \<and> Head s' = Head s \<and> fresh s' = fresh s
     \<and> chain (heap s') (Some c) (c # as') \<and> set as' \<subseteq> set as
     \<and> Size s' = Size s - (int (length as) - int (length as'))
     \<and> (\<forall>a. a \<notin> set (c # as) \<longrightarrow> heap s' a = heap s a)
     \<and> (\<forall>a. Data (heap s' a) = Data (heap s a))
     \<and> datas (heap s) as' = remove1 v (datas (heap s) as)
     \<and> b = (v \<in> set (datas (heap s) as))"
proof (induction as arbitrary: c)
  case Nil
  then have "deleteByValue_loop v s c = Some (False, s)"
    by (subst deleteByValue_loop.simps) simp
  with Nil show ?case by auto
next
  case (Cons n rest)
  define h where "h = heap s"
  from Cons.prems have nx: "Next (h c) = Some n" and tl: "chain h (Some n) (n # rest)"
    by (simp_all add: h_def)
  from Cons.prems have "distinct (c # n # rest)" by (rule chain_distinct)
  then have cn: "c \<noteq> n" and crest: "c \<notin> set rest" by auto
  show ?case
  proof (cases "Data (h n) = v")
    case True
    define h' where "h' = h(c := (h c)\<lparr>Next := Next (h n)\<rparr>)"
    let ?s' = "s\<lparr>heap := h', Size := Size s - 1\<rparr>"
    have run: "deleteByValue_loop v s c = Some (True, ?s')"
      using nx True by (subst deleteByValue_loop.simps) (simp add: h_def [symmetric] h'_def)
    have "chain h (Some c) ([] @ c # n # rest)" using Cons.prems by (simp add: h_def)
    moreover have "chain h (Next (h n)) rest" using tl by simp
    ultimately have "chain h' (Some c) ([] @ c # rest)"
      unfolding h'_def using crest by (rule chain_relink)
    then have 1: "chain (heap ?s') (Some c) (c # rest)" by simp
    have 2: "\<forall>a. a \<notin> set (c # n # rest) \<longrightarrow> heap ?s' a = heap s a"
      by (simp add: h'_def h_def)
    have 3: "\<forall>a. Data (heap ?s' a) = Data (heap s a)"
      by (simp add: h'_def h_def)
    have 4: "datas (heap s) rest = remove1 v (datas (heap s) (n # rest))"
      using True by (simp add: h_def)
    have 5: "v \<in> set (datas (heap s) (n # rest))"
      using True by (simp add: h_def)
    show ?thesis
    proof (intro exI conjI)
      show "deleteByValue_loop v s c = Some (True, ?s')" by (fact run)
      show "Head ?s' = Head s" "fresh ?s' = fresh s" by simp_all
      show "chain (heap ?s') (Some c) (c # rest)" by (fact 1)
      show "set rest \<subseteq> set (n # rest)" by auto
      show "Size ?s' = Size s - (int (length (n # rest)) - int (length rest))" by simp
      show "\<forall>a. a \<notin> set (c # n # rest) \<longrightarrow> heap ?s' a = heap s a" by (fact 2)
      show "\<forall>a. Data (heap ?s' a) = Data (heap s a)" by (fact 3)
      show "datas (heap s) rest = remove1 v (datas (heap s) (n # rest))" by (fact 4)
      show "True = (v \<in> set (datas (heap s) (n # rest)))" using 5 by simp
    qed
  next
    case False
    from Cons.IH [OF tl [unfolded h_def]] obtain b s' rest' where
      run: "deleteByValue_loop v s n = Some (b, s')"
      and keep: "Head s' = Head s" "fresh s' = fresh s"
      and ch: "chain (heap s') (Some n) (n # rest')" and sub: "set rest' \<subseteq> set rest"
      and sz: "Size s' = Size s - (int (length rest) - int (length rest'))"
      and frame: "\<forall>a. a \<notin> set (n # rest) \<longrightarrow> heap s' a = heap s a"
      and data: "\<forall>a. Data (heap s' a) = Data (heap s a)"
      and res: "datas (heap s) rest' = remove1 v (datas (heap s) rest)"
      and b: "b = (v \<in> set (datas (heap s) rest))"
      by blast
    have run': "deleteByValue_loop v s c = Some (b, s')"
      using nx False run by (subst deleteByValue_loop.simps) (simp add: h_def [symmetric])
    have "heap s' c = heap s c" using frame cn crest by simp
    with nx ch have 1: "chain (heap s') (Some c) (c # n # rest')" by (simp add: h_def)
    have 2: "\<forall>a. a \<notin> set (c # n # rest) \<longrightarrow> heap s' a = heap s a"
      using frame by simp
    have 4: "datas (heap s) (n # rest') = remove1 v (datas (heap s) (n # rest))"
      using False res by (simp add: h_def)
    have 5: "b = (v \<in> set (datas (heap s) (n # rest)))"
      using False b by (auto simp: h_def)
    show ?thesis
    proof (intro exI conjI)
      show "deleteByValue_loop v s c = Some (b, s')" by (fact run')
      show "Head s' = Head s" "fresh s' = fresh s" by (fact keep)+
      show "chain (heap s') (Some c) (c # n # rest')" by (fact 1)
      show "set (n # rest') \<subseteq> set (n # rest)" using sub by auto
      show "Size s' = Size s - (int (length (n # rest)) - int (length (n # rest')))"
        using sz by simp
      show "\<forall>a. a \<notin> set (c # n # rest) \<longrightarrow> heap s' a = heap s a" by (fact 2)
      show "\<forall>a. Data (heap s' a) = Data (heap s a)" by (fact data)
      show "datas (heap s) (n # rest') = remove1 v (datas (heap s) (n # rest))" by (fact 4)
      show "b = (v \<in> set (datas (heap s) (n # rest)))" by (fact 5)
    qed
  qed
qed

lemma DeleteByValue_wellformed:
  assumes "wellformed s as"
  shows "\<exists>b s' as'. DeleteByValue v s = Some (b, s') \<and> wellformed s' as'
           \<and> datas (heap s') as' = remove1 v (datas (heap s) as)
           \<and> b = (v \<in> set (datas (heap s) as))"
proof (cases as)
  case Nil
  note wf = wellformedD [OF assms]
  have "Head s = None" using wf(1) Nil by simp
  then have "DeleteByValue v s = Some (False, s)" by (simp add: DeleteByValue_def)
  moreover have "wellformed s []" using assms Nil by simp
  ultimately show ?thesis unfolding Nil by (intro exI [of _ False] exI [of _ s] exI [of _ "[]"]) simp
next
  case (Cons c cs)
  note wf = wellformedD [OF assms]
  have hd: "Head s = Some c" and ch: "chain (heap s) (Some c) (c # cs)"
    using wf(1) Cons by auto
  show ?thesis
  proof (cases "Data (heap s c) = v")
    case True
    from DeleteFirst_wellformed [OF assms [unfolded Cons]] obtain s' where
      df: "DeleteFirst s = (Inr (Data (heap s c)), s')" and wf': "wellformed s' cs"
      and hp: "heap s' = heap s"
      by blast
    have "DeleteByValue v s = Some (True, s')"
      using hd True df by (simp add: DeleteByValue_def)
    moreover have "datas (heap s') cs = remove1 v (datas (heap s) (c # cs))"
      using True hp by simp
    moreover have "True = (v \<in> set (datas (heap s) (c # cs)))"
      using True by simp
    ultimately show ?thesis unfolding Cons using wf' by blast
  next
    case False
    from deleteByValue_loop_chain [OF ch, of v] obtain b s' cs' where
      run: "deleteByValue_loop v s c = Some (b, s')"
      and keep: "Head s' = Head s" "fresh s' = fresh s"
      and ch': "chain (heap s') (Some c) (c # cs')" and sub: "set cs' \<subseteq> set cs"
      and sz: "Size s' = Size s - (int (length cs) - int (length cs'))"
      and data: "\<forall>a. Data (heap s' a) = Data (heap s a)"
      and res: "datas (heap s) cs' = remove1 v (datas (heap s) cs)"
      and b: "b = (v \<in> set (datas (heap s) cs))"
      by blast
    have wf': "wellformed s' (c # cs')"
    proof (rule wellformedI)
      show "chain (heap s') (Head s') (c # cs')" using ch' keep hd by simp
      show "Size s' = int (length (c # cs'))" using sz wf(2) Cons by simp
      have "set (c # cs') \<subseteq> set as" using sub Cons by auto
      then show "\<forall>a\<in>set (c # cs'). a < fresh s'" using wf(3) keep(2) by auto
    qed
    have "datas (heap s') (c # cs') = datas (heap s) (c # cs')"
      using data by (simp add: datas_def)
    moreover have "datas (heap s) (c # cs') = remove1 v (datas (heap s) (c # cs))"
      using res False by simp
    ultimately have 1: "datas (heap s') (c # cs') = remove1 v (datas (heap s) (c # cs))"
      by simp
    have 2: "DeleteByValue v s = Some (b, s')"
      using hd False run by (simp add: DeleteByValue_def)
    have 3: "b = (v \<in> set (datas (heap s) (c # cs)))"
      using b False by auto
    show ?thesis unfolding Cons using wf' 1 2 3 by blast
  qed
qed

lemma search_loop_chain:
  "chain h p as \<Longrightarrow>
   search_loop h v p i =
     Some (if v \<in> set (datas h as)
           then i + int (length (takeWhile (\<lambda>x. x \<noteq> v) (datas h as))) else - 1)"
proof (induction as arbitrary: p i)
  case Nil
  then show ?case by (subst search_loop.simps) simp
next
  case (Cons a as)
  then have "chain h (Next (h a)) as" and p: "p = Some a" by simp_all
  from Cons.IH [OF this(1), of "i + 1"] p show ?case
    by (subst search_loop.simps) simp
qed

lemma toSlice_loop_chain: "chain h p as \<Longrightarrow> toSlice_loop h acc p = Some (acc @ datas h as)"
proof (induction as arbitrary: p acc)
  case Nil
  then show ?case by (subst toSlice_loop.simps) simp
next
  case (Cons a as)
  then have "chain h (Next (h a)) as" and p: "p = Some a" by simp_all
  from Cons.IH [OF this(1), of "acc @ [Data (h a)]"] p show ?case
    by (subst toSlice_loop.simps) simp
qed

lemma ToSlice_wellformed: "wellformed s as \<Longrightarrow> ToSlice s = Some (Done (datas (heap s) as))"
  using toSlice_loop_chain [of "heap s" "Head s" as "[]"]
  by (auto simp: ToSlice_def dest: wellformedD)

lemma Search_wellformed:
  "wellformed s as \<Longrightarrow>
   Search v s = Some (if v \<in> set (datas (heap s) as)
                      then int (length (takeWhile (\<lambda>x. x \<noteq> v) (datas (heap s) as))) else - 1)"
  using search_loop_chain [of "heap s" "Head s" as v 0]
  by (auto simp: Search_def dest: wellformedD)

lemma NewLinkedList_wellformed: "wellformed NewLinkedList []"
  by (simp add: wellformed_def NewLinkedList_def)

lemma Clear_wellformed: "wellformed (Clear s) []"
  by (simp add: wellformed_def Clear_def)

subsection \<open>Reverse\<close>

lemma reverse_loop_chain:
  "chain h cur cs \<Longrightarrow> chain h prev ps \<Longrightarrow> set cs \<inter> set ps = {} \<Longrightarrow>
   \<exists>h'. reverse_loop h prev cur = Some (h', first_ptr (rev cs @ ps))
     \<and> chain h' (first_ptr (rev cs @ ps)) (rev cs @ ps)
     \<and> (\<forall>a. Data (h' a) = Data (h a))"
proof (induction cs arbitrary: h cur prev ps)
  case Nil
  then have "reverse_loop h prev cur = Some (h, prev)"
    by (subst reverse_loop.simps) simp
  moreover have "prev = first_ptr ps" using Nil.prems(2) by (rule chain_first_ptr)
  ultimately show ?case using Nil.prems(2) by simp
next
  case (Cons c cs)
  define h1 where "h1 = h(c := (h c)\<lparr>Next := prev\<rparr>)"
  from Cons.prems(1) have cur: "cur = Some c" and tl: "chain h (Next (h c)) cs"
    by simp_all
  from tl have ccs: "c \<notin> set cs" by (rule chain_head_notin)
  from Cons.prems(3) have cps: "c \<notin> set ps" by simp
  have 1: "chain h1 (Next (h c)) cs" using tl ccs by (simp add: h1_def)
  have "chain h1 prev ps" using Cons.prems(2) cps by (simp add: h1_def)
  then have 2: "chain h1 (Some c) (c # ps)" by (simp add: h1_def)
  have 3: "set cs \<inter> set (c # ps) = {}" using Cons.prems(3) ccs by auto
  from Cons.IH [OF 1 2 3] obtain h' where
    run: "reverse_loop h1 (Some c) (Next (h c)) = Some (h', first_ptr (rev cs @ c # ps))"
    and ch: "chain h' (first_ptr (rev cs @ c # ps)) (rev cs @ c # ps)"
    and data: "\<forall>a. Data (h' a) = Data (h1 a)"
    by blast
  have "reverse_loop h prev cur = Some (h', first_ptr (rev (c # cs) @ ps))"
    using run cur by (subst reverse_loop.simps) (simp add: h1_def)
  moreover have "chain h' (first_ptr (rev (c # cs) @ ps)) (rev (c # cs) @ ps)"
    using ch by simp
  moreover have "\<forall>a. Data (h' a) = Data (h a)"
    using data by (simp add: h1_def)
  ultimately show ?case by blast
qed

lemma Reverse_wellformed:
  assumes "wellformed s as"
  shows "\<exists>s'. Reverse s = Some s' \<and> wellformed s' (rev as)
           \<and> datas (heap s') (rev as) = rev (datas (heap s) as) \<and> Size s' = Size s"
proof -
  note wf = wellformedD [OF assms]
  from reverse_loop_chain [OF wf(1), of None "[]"] obtain h' where
    run: "reverse_loop (heap s) None (Head s) = Some (h', first_ptr (rev as))"
    and ch: "chain h' (first_ptr (rev as)) (rev as)"
    and data: "\<forall>a. Data (h' a) = Data (heap s a)"
    by auto
  let ?s' = "s\<lparr>heap := h', Head := first_ptr (rev as)\<rparr>"
  have "Reverse s = Some ?s'" using run by (simp add: Reverse_def)
  moreover have "wellformed ?s' (rev as)"
    using ch wf(2,3) by (auto intro!: wellformedI)
  moreover have "datas h' (rev as) = rev (datas (heap s) as)"
    using data by (simp add: datas_def rev_map)
  ultimately show ?thesis by simp
qed

subsection \<open>FindMiddle and HasCycle\<close>

lemma findMiddle_loop_chain:
  "chain h slow ss \<Longrightarrow> chain h fast fs \<Longrightarrow> length fs \<le> length ss \<Longrightarrow>
   findMiddle_loop h slow fast = Some (Done (first_ptr (drop (length fs div 2) ss)))"
proof (induction fs arbitrary: slow fast ss rule: induct_list012)
  case 1
  then show ?case
    using chain_first_ptr [of h slow ss] by (subst findMiddle_loop.simps) simp
next
  case (2 x)
  then show ?case
    using chain_first_ptr [of h slow ss] by (subst findMiddle_loop.simps) simp
next
  case (3 x y zs)
  from "3.prems"(2) have fast: "fast = Some x" "Next (h x) = Some y"
    and tl: "chain h (Next (h y)) zs" by simp_all
  from "3.prems"(3) obtain sl ss' where ss: "ss = sl # ss'" by (cases ss) auto
  with "3.prems"(1) have slow: "slow = Some sl" and stl: "chain h (Next (h sl)) ss'"
    by simp_all
  have "length zs \<le> length ss'" using "3.prems"(3) ss by simp
  from "3.IH"(1) [OF stl tl this]
  have "findMiddle_loop h (Next (h sl)) (Next (h y))
          = Some (Done (first_ptr (drop (length zs div 2) ss')))" .
  then show ?case
    using fast slow ss by (subst findMiddle_loop.simps) simp
qed

lemma FindMiddle_wellformed:
  assumes "wellformed s as" and "as \<noteq> []"
  shows "FindMiddle s = Some (Done (Inr (datas (heap s) as ! (length as div 2)), s))"
proof -
  note wf = wellformedD [OF assms(1)]
  have k: "length as div 2 < length as" using assms(2) by simp
  have "findMiddle_loop (heap s) (Head s) (Head s)
          = Some (Done (first_ptr (drop (length as div 2) as)))"
    using wf(1) by (intro findMiddle_loop_chain) simp_all
  then have loop: "findMiddle_loop (heap s) (Head s) (Head s)
          = Some (Done (Some (as ! (length as div 2))))"
    using k by (simp add: Cons_nth_drop_Suc [symmetric])
  from assms(2) wf(1) obtain a where "Head s = Some a" by (cases as) auto
  then show ?thesis using loop k by (simp add: FindMiddle_def datas_def)
qed

lemma first_ptr_drop_neq:
  assumes "distinct as" and "Suc (Suc d) \<le> length as"
  shows "first_ptr (drop 1 as) \<noteq> first_ptr (drop (Suc (Suc d)) as)"
proof (cases "Suc (Suc d) < length as")
  case False
  with assms(2) have "drop (Suc (Suc d)) as = []" by simp
  moreover have "drop 1 as \<noteq> []" using assms(2) by simp
  ultimately show ?thesis by (cases "drop 1 as") simp_all
next
  case True
  then have "first_ptr (drop 1 as) = Some (as ! 1)"
    "first_ptr (drop (Suc (Suc d)) as) = Some (as ! Suc (Suc d))"
    by (simp_all add: Cons_nth_drop_Suc [symmetric])
  moreover have "as ! 1 \<noteq> as ! Suc (Suc d)"
    using assms(1) True by (simp add: nth_eq_iff_index_eq)
  ultimately show ?thesis by simp
qed

lemma hasCycle_loop_chain:
  "chain h slow ss \<Longrightarrow> fast = first_ptr (drop d ss) \<Longrightarrow>
   hasCycle_loop h slow fast = Some (Done False)"
proof (induction ss arbitrary: slow fast d)
  case Nil
  then show ?case by (subst hasCycle_loop.simps) simp
next
  case (Cons sl ss')
  let ?as = "sl # ss'"
  from Cons.prems(1) have slow: "slow = Some sl" and stl: "chain h (Next (h sl)) ss'"
    by simp_all
  have dist: "distinct ?as" using Cons.prems(1) by (rule chain_distinct)
  show ?case
  proof (cases "d < length ?as")
    case False
    then have "fast = None" using Cons.prems(2) by simp
    then show ?thesis by (subst hasCycle_loop.simps) simp
  next
    case d: True
    then have fast: "fast = Some (?as ! d)"
      using Cons.prems(2) by (simp add: Cons_nth_drop_Suc [symmetric])
    have nx: "Next (h (?as ! d)) = first_ptr (drop (Suc d) ?as)"
      using Cons.prems(1) d by (rule chain_nth_next)
    show ?thesis
    proof (cases "Suc d < length ?as")
      case False
      then have "Next (h (?as ! d)) = None" using nx by simp
      then show ?thesis using fast by (subst hasCycle_loop.simps) simp
    next
      case True
      then have fn: "Next (h (?as ! d)) = Some (?as ! Suc d)"
        using nx by (simp only: Cons_nth_drop_Suc [symmetric] first_ptr_simps)
      have nx2: "Next (h (?as ! Suc d)) = first_ptr (drop (Suc (Suc d)) ?as)"
        using Cons.prems(1) True by (rule chain_nth_next)
      have s1: "Next (h sl) = first_ptr (drop 1 ?as)"
        using stl chain_first_ptr by simp
      have neq: "Next (h sl) \<noteq> Next (h (?as ! Suc d))"
        unfolding s1 nx2 using dist True by (intro first_ptr_drop_neq) simp_all
      have "Next (h (?as ! Suc d)) = first_ptr (drop (Suc d) ss')"
        using nx2 by simp
      from Cons.IH [OF stl this]
      have "hasCycle_loop h (Next (h sl)) (Next (h (?as ! Suc d))) = Some (Done False)" .
      then show ?thesis
        using fast fn slow neq by (subst hasCycle_loop.simps) (simp del: nth_Cons_Suc)
    qed
  qed
qed

lemma HasCycle_wellformed:
  assumes "wellformed s as"
  shows "HasCycle s = Some (Done False)"
proof -
  note wf = wellformedD [OF assms]
  have "Head s = first_ptr (drop 0 as)" using wf(1) chain_first_ptr by simp
  with wf(1) have "hasCycle_loop (heap s) (Head s) (Head s) = Some (Done False)"
    by (rule hasCycle_loop_chain)
  then show ?thesis by (simp add: HasCycle_def)
qed

subsection \<open>RemoveDuplicates\<close>

lemma removeDuplicates_loop_chain:
  "chain (heap s) (Some c) (c # as) \<Longrightarrow>
   \<exists>s' as'. removeDuplicates_loop seen s c = Some s'
     \<and> Head s' = Head s \<and> fresh s' = fresh s
     \<and> chain (heap s') (Some c) (c # as') \<and> set as' \<subseteq> set as
     \<and> Size s' = Size s - (int (length as) - int (length as'))
     \<and> (\<forall>a. a \<notin> set (c # as) \<longrightarrow> heap s' a = heap s a)
     \<and> (\<forall>a. Data (heap s' a) = Data (heap s a))
     \<and> datas (heap s) as' = dedup seen (datas (heap s) as)"
proof (induction as arbitrary: s c seen)
  case Nil
  then have "removeDuplicates_loop seen s c = Some s"
    by (subst removeDuplicates_loop.simps) simp
  with Nil show ?case by auto
next
  case (Cons n rest)
  define h where "h = heap s"
  from Cons.prems have nx: "Next (h c) = Some n" and tl: "chain h (Some n) (n # rest)"
    by (simp_all add: h_def)
  from Cons.prems have "distinct (c # n # rest)" by (rule chain_distinct)
  then have cn: "c \<noteq> n" and crest: "c \<notin> set rest" by auto
  show ?case
  proof (cases "seen_get seen (Data (h n))")
    case True
    define h1 where "h1 = h(c := (h c)\<lparr>Next := Next (h n)\<rparr>)"
    define s1 where "s1 = s\<lparr>heap := h1, Size := Size s - 1\<rparr>"
    have s1: "heap s1 = h1" "Head s1 = Head s" "fresh s1 = fresh s" "Size s1 = Size s - 1"
      by (simp_all add: s1_def)
    have "chain h (Some c) ([] @ c # n # rest)" using Cons.prems by (simp add: h_def)
    moreover have "chain h (Next (h n)) rest" using tl by simp
    ultimately have "chain h1 (Some c) ([] @ c # rest)"
      unfolding h1_def using crest by (rule chain_relink)
    then have "chain (heap s1) (Some c) (c # rest)" by (simp add: s1)
    from Cons.IH [OF this, of seen] obtain s' rest' where
      run: "removeDuplicates_loop seen s1 c = Some s'"
      and keep: "Head s' = Head s1" "fresh s' = fresh s1"
      and ch: "chain (heap s') (Some c) (c # rest')" and sub: "set rest' \<subseteq> set rest"
      and sz: "Size s' = Size s1 - (int (length rest) - int (length rest'))"
      and frame: "\<forall>a. a \<notin> set (c # rest) \<longrightarrow> heap s' a = heap s1 a"
      and data: "\<forall>a. Data (heap s' a) = Data (heap s1 a)"
      and res: "datas (heap s1) rest' = dedup seen (datas (heap s1) rest)"
      by blast
    have d1: "\<And>bs. datas h1 bs = datas h bs" by (simp add: h1_def datas_def)
    show ?thesis
    proof (intro exI conjI)
      show "removeDuplicates_loop seen s c = Some s'"
        using nx True run
        by (subst removeDuplicates_loop.simps) (simp add: h_def [symmetric] s1_def h1_def)
      show "Head s' = Head s" "fresh s' = fresh s" using keep s1 by simp_all
      show "chain (heap s') (Some c) (c # rest')" by (fact ch)
      show "set rest' \<subseteq> set (n # rest)" using sub by auto
      show "Size s' = Size s - (int (length (n # rest)) - int (length rest'))"
        using sz s1 by simp
      show "\<forall>a. a \<notin> set (c # n # rest) \<longrightarrow> heap s' a = heap s a"
        using frame by (simp add: s1 h1_def h_def)
      show "\<forall>a. Data (heap s' a) = Data (heap s a)"
        using data by (simp add: s1 h1_def h_def)
      show "datas (heap s) rest' = dedup seen (datas (heap s) (n # rest))"
        using res True by (simp add: s1 d1 h_def [symmetric])
    qed
  next
    case False
    define seen' where "seen' = seen(Data (h n) \<mapsto> True)"
    from Cons.IH [OF tl [unfolded h_def], of seen'] obtain s' rest' where
      run: "removeDuplicates_loop seen' s n = Some s'"
      and keep: "Head s' = Head s" "fresh s' = fresh s"
      and ch: "chain (heap s') (Some n) (n # rest')" and sub: "set rest' \<subseteq> set rest"
      and sz: "Size s' = Size s - (int (length rest) - int (length rest'))"
      and frame: "\<forall>a. a \<notin> set (n # rest) \<longrightarrow> heap s' a = heap s a"
      and data: "\<forall>a. Data (heap s' a) = Data (heap s a)"
      and res: "datas (heap s) rest' = dedup seen' (datas (heap s) rest)"
      by blast
    have "heap s' c = heap s c" using frame cn crest by simp
    with nx ch have 1: "chain (heap s') (Some c) (c # n # rest')" by (simp add: h_def)
    show ?thesis
    proof (intro exI conjI)
      show "removeDuplicates_loop seen s c = Some s'"
        using nx False run
        by (subst removeDuplicates_loop.simps) (simp add: h_def [symmetric] seen'_def)
      show "Head s' = Head s" "fresh s' = fresh s" by (fact keep)+
      show "chain (heap s') (Some c) (c # n # rest')" by (fact 1)
      show "set (n # rest') \<subseteq> set (n # rest)" using sub by auto
      show "Size s' = Size s - (int (length (n # rest)) - int (length (n # rest')))"
        using sz by simp
      show "\<forall>a. a \<notin> set (c # n # rest) \<longrightarrow> heap s' a = heap s a"
        using frame by simp
      show "\<forall>a. Data (heap s' a) = Data (heap s a)" by (fact data)
      show "datas (heap s) (n # rest') = dedup seen (datas (heap s) (n # rest))"
        using res False by (simp add: h_def [symmetric] seen'_def)
    qed
  qed
qed

lemma dedup_first_occurrences:
  "dedup seen xs =
     map (\<lambda>i. xs ! i)
       (filter (\<lambda>i. \<not> seen_get seen (xs ! i) \<and> xs ! i \<notin> set (take i xs)) [0..<length xs])"
proof (induction xs arbitrary: seen)
  case Nil
  then show ?case by simp
next
  case (Cons x xs)
  have upt: "[0..<length (x # xs)] = 0 # map Suc [0..<length xs]"
    by (simp add: upt_conv_Cons map_Suc_upt del: upt_Suc)
  let ?P = "\<lambda>i. \<not> seen_get seen ((x # xs) ! i) \<and> (x # xs) ! i \<notin> set (take i (x # xs))"
  have tail: "map (\<lambda>i. (x # xs) ! i) (filter ?P (map Suc [0..<length xs]))
      = map (\<lambda>i. xs ! i)
          (filter (\<lambda>i. \<not> seen_get seen (xs ! i) \<and> xs ! i \<noteq> x \<and> xs ! i \<notin> set (take i xs))
            [0..<length xs])"
    by (simp add: filter_map comp_def)
  show ?case
  proof (cases "seen_get seen x")
    case True
    have "filter (\<lambda>i. \<not> seen_get seen (xs ! i) \<and> xs ! i \<noteq> x \<and> xs ! i \<notin> set (take i xs))
            [0..<length xs]
        = filter (\<lambda>i. \<not> seen_get seen (xs ! i) \<and> xs ! i \<notin> set (take i xs)) [0..<length xs]"
      using True by (intro filter_cong) auto
    with True tail Cons.IH [of seen] show ?thesis
      unfolding upt by simp
  next
    case False
    have "filter (\<lambda>i. \<not> seen_get seen (xs ! i) \<and> xs ! i \<noteq> x \<and> xs ! i \<notin> set (take i xs))
            [0..<length xs]
        = filter (\<lambda>i. \<not> seen_get (seen(x \<mapsto> True)) (xs ! i) \<and> xs ! i \<notin> set (take i xs))
            [0..<length xs]"
      by (intro filter_cong) (auto simp: seen_get_def)
    with False tail Cons.IH [of "seen(x \<mapsto> True)"] show ?thesis
      unfolding upt by (simp del: fun_upd_apply)
  qed
qed

lemma dedup_empty: "dedup Map.empty xs = first_occurrences xs"
  by (simp add: dedup_first_occurrences first_occurrences_def seen_get_def)

lemma seen_get_upd: "seen_get (seen(x \<mapsto> True)) y = (y = x \<or> seen_get seen y)"
  by (simp add: seen_get_def)

lemma set_dedup: "set (dedup seen xs) = {x \<in> set xs. \<not> seen_get seen x}"
proof (induction xs arbitrary: seen)
  case Nil
  then show ?case by simp
next
  case (Cons x xs)
  show ?case
    using Cons.IH [of seen] Cons.IH [of "seen(x \<mapsto> True)"]
    by (auto simp: seen_get_upd simp del: fun_upd_apply)
qed

lemma distinct_dedup: "distinct (dedup seen xs)"
proof (induction xs arbitrary: seen)
  case Nil
  then show ?case by simp
next
  case (Cons x xs)
  show ?case
    using Cons.IH [of seen] Cons.IH [of "seen(x \<mapsto> True)"]
    by (simp add: set_dedup seen_get_upd del: fun_upd_apply)
qed

lemma first_occurrences_props:
  "distinct (first_occurrences xs)" "set (first_occurrences xs) = set xs"
  "length (first_occurrences xs) = card (set xs)"
proof -
  show d: "distinct (first_occurrences xs)"
    unfolding dedup_empty [symmetric] by (rule distinct_dedup)
  show s: "set (first_occurrences xs) = set xs"
    unfolding dedup_empty [symmetric] by (simp add: set_dedup seen_get_def)
  show "length (first_occurrences xs) = card (set xs)"
    using distinct_card [OF d] s by simp
qed

lemma RemoveDuplicates_wellformed:
  assumes "wellformed s as"
  shows "\<exists>s' as'. RemoveDuplicates s = Some s' \<and> wellformed s' as'
           \<and> datas (heap s') as' = first_occurrences (datas (heap s) as)"
proof (cases as)
  case Nil
  note wf = wellformedD [OF assms]
  have "Head s = None" using wf(1) Nil by simp
  then have "RemoveDuplicates s = Some s" by (simp add: RemoveDuplicates_def)
  moreover have "wellformed s []" using assms Nil by simp
  moreover have "datas (heap s) [] = first_occurrences (datas (heap s) [])"
    by (simp add: first_occurrences_def)
  ultimately show ?thesis unfolding Nil by blast
next
  case (Cons c cs)
  note wf = wellformedD [OF assms]
  have hd: "Head s = Some c" and ch: "chain (heap s) (Some c) (c # cs)"
    using wf(1) Cons by auto
  define seen where "seen = Map.empty(Data (heap s c) \<mapsto> True)"
  from removeDuplicates_loop_chain [OF ch, of seen] obtain s' cs' where
    run: "removeDuplicates_loop seen s c = Some s'"
    and keep: "Head s' = Head s" "fresh s' = fresh s"
    and ch': "chain (heap s') (Some c) (c # cs')" and sub: "set cs' \<subseteq> set cs"
    and sz: "Size s' = Size s - (int (length cs) - int (length cs'))"
    and data: "\<forall>a. Data (heap s' a) = Data (heap s a)"
    and res: "datas (heap s) cs' = dedup seen (datas (heap s) cs)"
    by blast
  have wf': "wellformed s' (c # cs')"
  proof (rule wellformedI)
    show "chain (heap s') (Head s') (c # cs')" using ch' keep hd by simp
    show "Size s' = int (length (c # cs'))" using sz wf(2) Cons by simp
    have "set (c # cs') \<subseteq> set as" using sub Cons by auto
    then show "\<forall>a\<in>set (c # cs'). a < fresh s'" using wf(3) keep(2) by auto
  qed
  have "datas (heap s') (c # cs') = datas (heap s) (c # cs')"
    using data by (simp add: datas_def)
  also have "\<dots> = dedup Map.empty (datas (heap s) (c # cs))"
    using res by (simp add: seen_def seen_get_def)
  finally have 1: "datas (heap s') (c # cs') = first_occurrences (datas (heap s) (c # cs))"
    by (simp only: dedup_empty)
  have 2: "RemoveDuplicates s = Some s'"
    using hd run by (simp add: RemoveDuplicates_def seen_def)
  show ?thesis unfolding Cons using wf' 1 2 by blast
qed

subsection \<open>Every operation keeps the list well-formed\<close>

lemma validI: "wellformed s as \<Longrightarrow> valid s"
  by (auto simp: valid_def)

lemma valid_Prepend: "valid s \<Longrightarrow> valid (Prepend d s)"
  unfolding valid_def using Prepend_wellformed(1) by blast

lemma valid_Append: "valid s \<Longrightarrow> Append d s = Some s' \<Longrightarrow> valid s'"
  unfolding valid_def using Append_wellformed by (metis option.inject)

lemma valid_InsertAt:
  assumes "valid s" and "InsertAt d p s = Done (e, s')"
  shows "valid s'"
proof (cases "0 \<le> p \<and> p \<le> Size s")
  case True
  from assms(1) obtain as where "wellformed s as" by (auto simp: valid_def)
  from InsertAt_wellformed [OF this, of p d] True assms(2) show ?thesis
    by (auto intro: validI)
next
  case False
  with assms(2) have "s' = s" by (auto simp: InsertAt_def)
  with assms(1) show ?thesis by simp
qed

lemma valid_DeleteFirst:
  assumes "valid s" and "DeleteFirst s = (r, s')"
  shows "valid s'"
proof -
  from assms(1) obtain as where wf: "wellformed s as" by (auto simp: valid_def)
  show ?thesis
  proof (cases as)
    case Nil
    with wf have "Head s = None" by (simp add: wellformed_def)
    with assms show ?thesis by (simp add: DeleteFirst_def)
  next
    case (Cons a bs)
    from DeleteFirst_wellformed [OF wf [unfolded Cons]] assms(2) show ?thesis
      by (auto intro: validI)
  qed
qed

lemma valid_DeleteLast:
  assumes "valid s" and "DeleteLast s = Some (Done (r, s'))"
  shows "valid s'"
proof -
  from assms(1) obtain as where wf: "wellformed s as" by (auto simp: valid_def)
  show ?thesis
  proof (cases "as = []")
    case True
    with wf have "Head s = None" by (simp add: wellformed_def)
    with assms show ?thesis by (simp add: DeleteLast_def)
  next
    case False
    from DeleteLast_wellformed [OF wf False] assms(2) show ?thesis
      by (auto intro: validI)
  qed
qed

lemma valid_DeleteAt:
  assumes "valid s" and "DeleteAt p s = Done (r, s')"
  shows "valid s'"
proof (cases "0 \<le> p \<and> p < Size s")
  case True
  from assms(1) obtain as where "wellformed s as" by (auto simp: valid_def)
  from DeleteAt_wellformed [OF this, of p] True assms(2) show ?thesis
    by (auto intro: validI)
next
  case False
  with assms(2) have "s' = s" by (auto simp: DeleteAt_def)
  with assms(1) show ?thesis by simp
qed

lemma valid_DeleteByValue: "valid s \<Longrightarrow> DeleteByValue v s = Some (b, s') \<Longrightarrow> valid s'"
  unfolding valid_def using DeleteByValue_wellformed
  by (metis option.inject prod.inject)

lemma valid_Reverse: "valid s \<Longrightarrow> Reverse s = Some s' \<Longrightarrow> valid s'"
  unfolding valid_def using Reverse_wellformed by (metis option.inject)

lemma valid_RemoveDuplicates: "valid s \<Longrightarrow> RemoveDuplicates s = Some s' \<Longrightarrow> valid s'"
  unfolding valid_def using RemoveDuplicates_wellformed by (metis option.inject)

lemma reachable_valid: "reachable s \<Longrightarrow> valid s"
proof (induction rule: reachable.induct)
  case new
  show ?case using NewLinkedList_wellformed by (rule validI)
next
  case (clear s)
  show ?case using Clear_wellformed by (rule validI)
qed (blast intro: valid_Prepend valid_Append valid_InsertAt valid_DeleteFirst valid_DeleteLast
      valid_DeleteAt valid_DeleteByValue valid_Reverse valid_RemoveDuplicates)+

lemma built_valid: "built s \<Longrightarrow> valid s"
proof (induction rule: built.induct)
  case new
  show ?case using NewLinkedList_wellformed by (rule validI)
qed (blast intro: valid_Prepend valid_Append valid_InsertAt)+

lemma wellformed_Head_Size: "wellformed s as \<Longrightarrow> (Head s = None) = (Size s = 0)"
  by (cases as) (auto simp: wellformed_def)

text \<open>
  On a well-formed list every operation returns: no loop runs forever and no nil
  pointer is dereferenced.
\<close>

lemma operations_return:
  assumes "valid s"
  shows "\<exists>s'. Append d s = Some s'"
    and "\<exists>e s'. InsertAt d p s = Done (e, s')"
    and "\<exists>r s'. DeleteLast s = Some (Done (r, s'))"
    and "\<exists>r s'. DeleteAt p s = Done (r, s')"
    and "\<exists>b s'. DeleteByValue v s = Some (b, s')"
    and "\<exists>s'. Reverse s = Some s'"
    and "\<exists>s'. RemoveDuplicates s = Some s'"
    and "\<exists>r. Get p s = Done (r, s)"
    and "\<exists>r. FindMiddle s = Some (Done (r, s))"
    and "\<exists>i. Search v s = Some i"
    and "\<exists>xs. ToSlice s = Some (Done xs)"
    and "HasCycle s = Some (Done False)"
proof -
  from assms obtain as where wf: "wellformed s as" by (auto simp: valid_def)
  note wfD = wellformedD [OF wf]
  show "\<exists>s'. Append d s = Some s'" using Append_wellformed [OF wf] by blast
  show "\<exists>e s'. InsertAt d p s = Done (e, s')"
  proof (cases "0 \<le> p \<and> p \<le> Size s")
    case True
    with InsertAt_wellformed [OF wf, of p d] show ?thesis by blast
  next
    case False
    then show ?thesis by (auto simp: InsertAt_def)
  qed
  show "\<exists>r s'. DeleteLast s = Some (Done (r, s'))"
  proof (cases "as = []")
    case True
    with wfD(1) show ?thesis by (simp add: DeleteLast_def)
  next
    case False
    with DeleteLast_wellformed [OF wf] show ?thesis by blast
  qed
  show "\<exists>r s'. DeleteAt p s = Done (r, s')"
  proof (cases "0 \<le> p \<and> p < Size s")
    case True
    with DeleteAt_wellformed [OF wf, of p] show ?thesis by blast
  next
    case False
    then show ?thesis by (auto simp: DeleteAt_def)
  qed
  show "\<exists>b s'. DeleteByValue v s = Some (b, s')"
    using DeleteByValue_wellformed [OF wf] by blast
  show "\<exists>s'. Reverse s = Some s'" using Reverse_wellformed [OF wf] by blast
  show "\<exists>s'. RemoveDuplicates s = Some s'" using RemoveDuplicates_wellformed [OF wf] by blast
  show "\<exists>r. Get p s = Done (r, s)"
  proof (cases "0 \<le> p \<and> p < Size s")
    case True
    with Get_wellformed [OF wf, of p] show ?thesis by simp
  next
    case False
    then show ?thesis by (auto simp: Get_def)
  qed
  show "\<exists>r. FindMiddle s = Some (Done (r, s))"
  proof (cases "as = []")
    case True
    with wfD(1) show ?thesis by (simp add: FindMiddle_def)
  next
    case False
    with FindMiddle_wellformed [OF wf] show ?thesis by simp
  qed
  show "\<exists>i. Search v s = Some i" using Search_wellformed [OF wf] by simp
  show "\<exists>xs. ToSlice s = Some (Done xs)" using ToSlice_wellformed [OF wf] by simp
  show "HasCycle s = Some (Done False)" using wf by (rule HasCycle_wellformed)
qed

section \<open>The invariant of the list\<close>

text \<open>
  C1. In every state the public operations can reach from the empty list, the nodes
  from \<open>Head\<close> form a nil-terminated chain (the list is acyclic), \<open>Size\<close> is the number
  of nodes on that chain, and \<open>Head\<close> is nil exactly when \<open>Size\<close> is zero.
\<close>

theorem reachable_invariant:
  assumes "reachable s"
  shows "(\<exists>as. chain (heap s) (Head s) as \<and> Size s = int (length as))
         \<and> (Head s = None \<longleftrightarrow> Size s = 0)"
proof -
  from assms have "valid s" by (rule reachable_valid)
  then obtain as where wf: "wellformed s as" by (auto simp: valid_def)
  then have "chain (heap s) (Head s) as \<and> Size s = int (length as)"
    by (simp add: wellformed_def)
  moreover have "Head s = None \<longleftrightarrow> Size s = 0" using wf by (rule wellformed_Head_Size)
  ultimately show ?thesis by blast
qed

lemmas list_eval =
  Prepend_def alloc_def NewLinkedList_def wellformed_def

text \<open>
  After \<open>Prepend 2\<close>, \<open>Prepend 1\<close> and \<open>DeleteFirst\<close> the list holds one node.
\<close>

theorem reachable_invariant_witness:
  "reachable (snd (DeleteFirst (Prepend 1 (Prepend 2 NewLinkedList))))
   \<and> ((\<exists>as. chain (heap (snd (DeleteFirst (Prepend 1 (Prepend 2 NewLinkedList)))))
               (Head (snd (DeleteFirst (Prepend 1 (Prepend 2 NewLinkedList))))) as
             \<and> Size (snd (DeleteFirst (Prepend 1 (Prepend 2 NewLinkedList)))) = int (length as))
        \<and> (Head (snd (DeleteFirst (Prepend 1 (Prepend 2 NewLinkedList)))) = None
             \<longleftrightarrow> Size (snd (DeleteFirst (Prepend 1 (Prepend 2 NewLinkedList)))) = 0))"
proof -
  have "reachable (Prepend 1 (Prepend 2 NewLinkedList))"
    by (intro reachable.prepend reachable.new)
  then have r: "reachable (snd (DeleteFirst (Prepend 1 (Prepend 2 NewLinkedList))))"
    by (rule reachable.deleteFirst) (rule surjective_pairing)
  from r reachable_invariant [OF r] show ?thesis by (rule conjI)
qed

lemma four_nodes_wellformed: "wellformed four_nodes [3, 2, 1, 0]"
  by (simp add: four_nodes_def list_eval)

lemma four_nodes_ToSlice: "ToSlice four_nodes = Some (Done [1, 2, 3, 4])"
  by (simp add: ToSlice_wellformed [OF four_nodes_wellformed])
     (simp add: four_nodes_def list_eval)

section \<open>FindMiddle\<close>

text \<open>
  C2, as stated, fails for every list with an even number of nodes. On the list
  \<open>[1, 2, 3, 4]\<close> (count 4) \<open>FindMiddle\<close> returns 3, the value at index 2, while the
  value at index \<open>\<lfloor>(4 - 1) / 2\<rfloor> = 1\<close> is 2.
\<close>

theorem FindMiddle_counterexample:
  "ToSlice four_nodes = Some (Done [1, 2, 3, 4]) \<and> Size four_nodes = 4
   \<and> FindMiddle four_nodes = Some (Done (Inr 3, four_nodes))
   \<and> [1, 2, 3, 4 :: int] ! nat ((Size four_nodes - 1) div 2) = 2"
proof -
  have "FindMiddle four_nodes = Some (Done (Inr 3, four_nodes))"
    by (simp add: FindMiddle_wellformed [OF four_nodes_wellformed])
       (simp add: four_nodes_def list_eval)
  moreover have "Size four_nodes = 4" by (simp add: four_nodes_def list_eval)
  ultimately show ?thesis using four_nodes_ToSlice by simp
qed

text \<open>
  C2, amended. On every well-formed list \<open>FindMiddle\<close> returns: for the empty list it
  fails with \<open>EmptyList\<close>; for a non-empty list it succeeds with the value stored at
  0-based index \<open>\<lfloor>count / 2\<rfloor>\<close> (for an even count, the later of the two middle
  elements). The list is unchanged.
\<close>

theorem FindMiddle_index:
  assumes "valid s"
  shows "\<exists>xs. ToSlice s = Some (Done xs) \<and> int (length xs) = Size s
           \<and> FindMiddle s = Some (Done (if Size s = 0 then Inl EmptyList
                                         else Inr (xs ! nat (Size s div 2)), s))"
proof -
  from assms obtain as where wf: "wellformed s as" by (auto simp: valid_def)
  note wfD = wellformedD [OF wf]
  have ts: "ToSlice s = Some (Done (datas (heap s) as))" using wf by (rule ToSlice_wellformed)
  have len: "int (length (datas (heap s) as)) = Size s" using wfD(2) by simp
  have "FindMiddle s = Some (Done (if Size s = 0 then Inl EmptyList
          else Inr (datas (heap s) as ! nat (Size s div 2)), s))"
  proof (cases "as = []")
    case True
    with wfD show ?thesis by (simp add: FindMiddle_def)
  next
    case False
    have "nat (Size s div 2) = length as div 2" using wfD(2) by (simp add: nat_div_distrib)
    with FindMiddle_wellformed [OF wf False] False wfD(2) show ?thesis by simp
  qed
  with ts len show ?thesis by blast
qed

theorem FindMiddle_index_witness:
  "valid four_nodes
   \<and> (\<exists>xs. ToSlice four_nodes = Some (Done xs) \<and> int (length xs) = Size four_nodes
         \<and> FindMiddle four_nodes = Some (Done (if Size four_nodes = 0 then Inl EmptyList
               else Inr (xs ! nat (Size four_nodes div 2)), four_nodes)))"
proof -
  have v: "valid four_nodes" using four_nodes_wellformed by (rule validI)
  from v FindMiddle_index [OF v] show ?thesis by (rule conjI)
qed

lemma two_nodes_wellformed: "wellformed two_nodes [1, 0]"
  by (simp add: two_nodes_def list_eval)

section \<open>Positions at the boundary\<close>

text \<open>
  C3, as stated, fails for \<open>Search\<close>: its argument is a value, not a position, and its
  result is a plain integer. On the list \<open>[-1, 2]\<close> (count 2) the calls
  \<open>Search(-1)\<close> and \<open>Search(2)\<close> both succeed, with the indices 0 and 1.
\<close>

theorem Search_boundary_counterexample:
  "ToSlice two_nodes = Some (Done [- 1, 2]) \<and> Size two_nodes = 2
   \<and> Search (- 1) two_nodes = Some 0 \<and> Search (Size two_nodes) two_nodes = Some 1"
proof -
  have d: "datas (heap two_nodes) [1, 0] = [- 1, 2]" and sz: "Size two_nodes = 2"
    by (simp_all add: two_nodes_def list_eval)
  have "ToSlice two_nodes = Some (Done [- 1, 2])"
    using ToSlice_wellformed [OF two_nodes_wellformed] d by simp
  moreover have "Search (- 1) two_nodes = Some 0" "Search 2 two_nodes = Some 1"
    using Search_wellformed [OF two_nodes_wellformed] d by simp_all
  ultimately show ?thesis using sz by simp
qed

text \<open>
  C3, amended. In every state, \<open>DeleteAt\<close> and \<open>Get\<close> called with \<open>-1\<close> or with the
  count fail with \<open>InvalidPosition\<close> and return the state unchanged. \<open>Search\<close> takes a
  value and never fails: on a well-formed list it returns the index of the first node
  holding the value, or \<open>-1\<close> when no node holds it.
\<close>

theorem boundary_positions:
  "DeleteAt (- 1) s = Done (Inl (InvalidPosition (- 1)), s)
   \<and> DeleteAt (Size s) s = Done (Inl (InvalidPosition (Size s)), s)
   \<and> Get (- 1) s = Done (Inl (InvalidPosition (- 1)), s)
   \<and> Get (Size s) s = Done (Inl (InvalidPosition (Size s)), s)
   \<and> (valid s \<longrightarrow>
        (\<exists>xs. ToSlice s = Some (Done xs)
           \<and> Search v s = Some (if v \<in> set xs
                                then int (length (takeWhile (\<lambda>x. x \<noteq> v) xs)) else - 1)))"
proof (intro conjI impI)
  show "DeleteAt (- 1) s = Done (Inl (InvalidPosition (- 1)), s)"
    "DeleteAt (Size s) s = Done (Inl (InvalidPosition (Size s)), s)"
    by (simp_all add: DeleteAt_def)
  show "Get (- 1) s = Done (Inl (InvalidPosition (- 1)), s)"
    "Get (Size s) s = Done (Inl (InvalidPosition (Size s)), s)"
    by (simp_all add: Get_def)
next
  assume "valid s"
  then obtain as where wf: "wellformed s as" by (auto simp: valid_def)
  from ToSlice_wellformed [OF wf] Search_wellformed [OF wf, of v]
  show "\<exists>xs. ToSlice s = Some (Done xs)
          \<and> Search v s = Some (if v \<in> set xs
                               then int (length (takeWhile (\<lambda>x. x \<noteq> v) xs)) else - 1)"
    by blast
qed

theorem boundary_positions_witness:
  "valid two_nodes
   \<and> DeleteAt (- 1) two_nodes = Done (Inl (InvalidPosition (- 1)), two_nodes)
   \<and> DeleteAt 2 two_nodes = Done (Inl (InvalidPosition 2), two_nodes)
   \<and> Get (- 1) two_nodes = Done (Inl (InvalidPosition (- 1)), two_nodes)
   \<and> Get 2 two_nodes = Done (Inl (InvalidPosition 2), two_nodes)
   \<and> (\<exists>xs. ToSlice two_nodes = Some (Done xs)
         \<and> Search 7 two_nodes = Some (if 7 \<in> set xs
                                then int (length (takeWhile (\<lambda>x. x \<noteq> 7) xs)) else - 1))"
proof -
  have v: "valid two_nodes" using two_nodes_wellformed by (rule validI)
  have sz: "Size two_nodes = 2" by (simp add: two_nodes_def list_eval)
  from boundary_positions [of two_nodes 7] v sz show ?thesis by simp
qed

section \<open>Reverse\<close>

text \<open>
  C5. On every well-formed list \<open>Reverse\<close> returns; the values then read in the
  opposite order and the count is the same; a second \<open>Reverse\<close> returns as well and
  gives back the original sequence and count.
\<close>

theorem Reverse_involution:
  assumes "valid s"
  shows "\<exists>xs s1 s2. ToSlice s = Some (Done xs)
           \<and> Reverse s = Some s1 \<and> ToSlice s1 = Some (Done (rev xs)) \<and> Size s1 = Size s
           \<and> Reverse s1 = Some s2 \<and> ToSlice s2 = Some (Done xs) \<and> Size s2 = Size s"
proof -
  from assms obtain as where wf: "wellformed s as" by (auto simp: valid_def)
  from Reverse_wellformed [OF wf] obtain s1 where
    r1: "Reverse s = Some s1" and wf1: "wellformed s1 (rev as)"
    and d1: "datas (heap s1) (rev as) = rev (datas (heap s) as)" and z1: "Size s1 = Size s"
    by blast
  from Reverse_wellformed [OF wf1] obtain s2 where
    r2: "Reverse s1 = Some s2" and wf2: "wellformed s2 (rev (rev as))"
    and d2: "datas (heap s2) (rev (rev as)) = rev (datas (heap s1) (rev as))"
    and z2: "Size s2 = Size s1"
    by blast
  have "ToSlice s = Some (Done (datas (heap s) as))" using wf by (rule ToSlice_wellformed)
  moreover have "ToSlice s1 = Some (Done (rev (datas (heap s) as)))"
    using ToSlice_wellformed [OF wf1] d1 by simp
  moreover have "ToSlice s2 = Some (Done (datas (heap s) as))"
    using ToSlice_wellformed [OF wf2] d2 d1 by simp
  ultimately show ?thesis using r1 r2 z1 z2 by auto
qed

theorem Reverse_involution_witness:
  "valid four_nodes
   \<and> (\<exists>xs s1 s2. ToSlice four_nodes = Some (Done xs)
         \<and> Reverse four_nodes = Some s1 \<and> ToSlice s1 = Some (Done (rev xs))
         \<and> Size s1 = Size four_nodes
         \<and> Reverse s1 = Some s2 \<and> ToSlice s2 = Some (Done xs) \<and> Size s2 = Size four_nodes)"
proof -
  have v: "valid four_nodes" using four_nodes_wellformed by (rule validI)
  from v Reverse_involution [OF v] show ?thesis by (rule conjI)
qed

section \<open>HasCycle\<close>

text \<open>
  C6. On every list built from the empty list with \<open>Prepend\<close>, \<open>Append\<close> and
  \<open>InsertAt\<close> at a valid position, \<open>HasCycle\<close> returns \<open>false\<close>.
\<close>

theorem built_HasCycle:
  assumes "built s"
  shows "HasCycle s = Some (Done False)"
proof -
  from assms have "valid s" by (rule built_valid)
  then obtain as where "wellformed s as" by (auto simp: valid_def)
  then show ?thesis by (rule HasCycle_wellformed)
qed

theorem built_HasCycle_witness:
  "built four_nodes \<and> HasCycle four_nodes = Some (Done False)"
proof -
  have b: "built four_nodes"
    unfolding four_nodes_def by (intro built.prepend built.new)
  from b built_HasCycle [OF b] show ?thesis by (rule conjI)
qed

section \<open>RemoveDuplicates\<close>

lemma nine_nodes_wellformed: "wellformed nine_nodes [8, 7, 6, 5, 4, 3, 2, 1, 0]"
  by (simp add: nine_nodes_def list_eval)

lemma nine_nodes_ToSlice: "ToSlice nine_nodes = Some (Done [1, 2, 2, 3, 3, 3, 4, 5, 5])"
  by (simp add: ToSlice_wellformed [OF nine_nodes_wellformed])
     (simp add: nine_nodes_def list_eval)

lemma first_occurrences_example:
  "first_occurrences [1, 2, 2, 3, 3, 3, 4, 5, 5] = [1, 2, 3, 4, 5]"
  unfolding dedup_empty [symmetric] by (simp add: seen_get_def)

text \<open>
  C7. On every well-formed list \<open>RemoveDuplicates\<close> returns, and the list then holds
  the first occurrence of every value of the original sequence, in the original order;
  the count is the number of distinct values. Hence a list reading
  \<open>[1,2,2,3,3,3,4,5,5]\<close> becomes \<open>[1,2,3,4,5]\<close> with count 5.
\<close>

theorem RemoveDuplicates_first_occurrences:
  assumes "valid s"
  shows "\<exists>xs s'. ToSlice s = Some (Done xs) \<and> RemoveDuplicates s = Some s' \<and> valid s'
           \<and> ToSlice s' = Some (Done (first_occurrences xs))
           \<and> Size s' = int (card (set xs))
           \<and> (xs = [1, 2, 2, 3, 3, 3, 4, 5, 5] \<longrightarrow>
                 ToSlice s' = Some (Done [1, 2, 3, 4, 5]) \<and> Size s' = 5)"
proof -
  from assms obtain as where wf: "wellformed s as" by (auto simp: valid_def)
  define xs where "xs = datas (heap s) as"
  from RemoveDuplicates_wellformed [OF wf] obtain s' as' where
    run: "RemoveDuplicates s = Some s'" and wf': "wellformed s' as'"
    and d: "datas (heap s') as' = first_occurrences xs"
    by (auto simp: xs_def)
  have ts: "ToSlice s = Some (Done xs)" using ToSlice_wellformed [OF wf] by (simp add: xs_def)
  have ts': "ToSlice s' = Some (Done (first_occurrences xs))"
    using ToSlice_wellformed [OF wf'] d by simp
  have "Size s' = int (length (datas (heap s') as'))"
    using wellformedD(2) [OF wf'] by simp
  then have sz: "Size s' = int (card (set xs))"
    using d first_occurrences_props(3) [of xs] by simp
  have ex: "xs = [1, 2, 2, 3, 3, 3, 4, 5, 5] \<longrightarrow>
      ToSlice s' = Some (Done [1, 2, 3, 4, 5]) \<and> Size s' = 5"
  proof
    assume e: "xs = [1, 2, 2, 3, 3, 3, 4, 5, 5]"
    have "int (length (first_occurrences xs)) = 5"
      unfolding e first_occurrences_example by simp
    then have "Size s' = 5" using sz first_occurrences_props(3) [of xs] by simp
    moreover have "ToSlice s' = Some (Done [1, 2, 3, 4, 5])"
      using ts' unfolding e first_occurrences_example .
    ultimately show "ToSlice s' = Some (Done [1, 2, 3, 4, 5]) \<and> Size s' = 5" by simp
  qed
  from ts run wf' ts' sz ex show ?thesis by (blast intro: validI)
qed

theorem RemoveDuplicates_first_occurrences_witness:
  "valid nine_nodes \<and> ToSlice nine_nodes = Some (Done [1, 2, 2, 3, 3, 3, 4, 5, 5])
   \<and> (\<exists>s'. RemoveDuplicates nine_nodes = Some s'
         \<and> ToSlice s' = Some (Done [1, 2, 3, 4, 5]) \<and> Size s' = 5)"
proof -
  have v: "valid nine_nodes" using nine_nodes_wellformed by (rule validI)
  from RemoveDuplicates_first_occurrences [OF v] nine_nodes_ToSlice v
  show ?thesis by auto
qed

section \<open>The error paths change nothing\<close>

text \<open>
  C4. In any list state whatsoever, a call of \<open>InsertAt\<close>, \<open>DeleteFirst\<close>,
  \<open>DeleteLast\<close>, \<open>DeleteAt\<close>, \<open>Get\<close> or \<open>FindMiddle\<close> that returns an error leaves
  the whole state (head, count and every node) exactly as it was before the call.
\<close>

theorem failed_call_keeps_state:
  "(InsertAt d p s = Done (Some e, s') \<longrightarrow> s' = s) \<and>
   (DeleteFirst s = (Inl e, s') \<longrightarrow> s' = s) \<and>
   (DeleteLast s = Some (Done (Inl e, s')) \<longrightarrow> s' = s) \<and>
   (DeleteAt p s = Done (Inl e, s') \<longrightarrow> s' = s) \<and>
   (Get p s = Done (Inl e, s') \<longrightarrow> s' = s) \<and>
   (FindMiddle s = Some (Done (Inl e, s')) \<longrightarrow> s' = s)"
proof (intro conjI impI)
  assume "InsertAt d p s = Done (Some e, s')"
  then show "s' = s"
    by (auto simp: InsertAt_def Let_def split: if_splits prod.splits exec.splits option.splits)
next
  assume "DeleteFirst s = (Inl e, s')"
  then show "s' = s"
    by (auto simp: DeleteFirst_def split: option.splits)
next
  assume "DeleteLast s = Some (Done (Inl e, s'))"
  then show "s' = s"
    by (auto simp: DeleteLast_def split: option.splits exec.splits)
next
  assume "DeleteAt p s = Done (Inl e, s')"
  then show "s' = s"
    by (auto simp: DeleteAt_def DeleteFirst_def split: if_splits option.splits exec.splits)
next
  assume "Get p s = Done (Inl e, s')"
  then show "s' = s"
    by (auto simp: Get_def split: if_splits option.splits exec.splits)
next
  assume "FindMiddle s = Some (Done (Inl e, s'))"
  then show "s' = s"
    by (auto simp: FindMiddle_def split: option.splits exec.splits)
qed

text \<open>
  On the empty list every one of the six calls fails (positions are out of range, there
  is nothing to delete), and the state returned is the state passed in.
\<close>

theorem failed_call_keeps_state_witness:
  "InsertAt 7 5 NewLinkedList = Done (Some (InvalidPosition 5), NewLinkedList) \<and>
   DeleteFirst NewLinkedList = (Inl EmptyList, NewLinkedList) \<and>
   DeleteLast NewLinkedList = Some (Done (Inl EmptyList, NewLinkedList)) \<and>
   DeleteAt 5 NewLinkedList = Done (Inl (InvalidPosition 5), NewLinkedList) \<and>
   Get 5 NewLinkedList = Done (Inl (InvalidPosition 5), NewLinkedList) \<and>
   FindMiddle NewLinkedList = Some (Done (Inl EmptyList, NewLinkedList))"
  using failed_call_keeps_state [of 7 5 NewLinkedList]
  by (simp add: InsertAt_def DeleteFirst_def DeleteLast_def DeleteAt_def Get_def FindMiddle_def
      NewLinkedList_def)

section \<open>Truncated division\<close>

lemma quot_nonneg [simp]: "0 \<le> a \<Longrightarrow> quot a 2 = a div 2"
  by (cases "a = 0") (simp_all add: quot_def sgn_if)

section \<open>FindInsertionPoint returns the lower bound\<close>

lemma index_in_range [simp]:
  "0 \<le> i \<Longrightarrow> i < int (length arr) \<Longrightarrow> index arr i = Done (arr ! nat i)"
  by (simp add: index_def)

lemma findInsertionPoint_loop_bound:
  "sorted arr \<Longrightarrow> 0 \<le> left \<Longrightarrow> left \<le> right \<Longrightarrow> right \<le> int (length arr)
   \<Longrightarrow> \<forall>i < nat left. arr ! i < t
   \<Longrightarrow> \<forall>i. nat right \<le> i \<and> i < length arr \<longrightarrow> t \<le> arr ! i
   \<Longrightarrow> \<exists>r. findInsertionPoint_loop arr t left right = Done (int r) \<and> r \<le> length arr
         \<and> (\<forall>i < r. arr ! i < t) \<and> (\<forall>i. r \<le> i \<and> i < length arr \<longrightarrow> t \<le> arr ! i)"
proof (induction arr t left right rule: findInsertionPoint_loop.induct)
  case (1 arr t left right)
  show ?case
  proof (cases "left < right")
    case False
    with "1.prems" have eq: "right = left" by simp
    have "findInsertionPoint_loop arr t left right = Done (int (nat left))"
      using False "1.prems"(2) by (subst findInsertionPoint_loop.simps) simp
    moreover have "nat left \<le> length arr" using "1.prems"(2,3,4) by simp
    ultimately show ?thesis using "1.prems"(5,6) eq by blast
  next
    case True
    define mid where "mid = left + quot (right - left) 2"
    have mid: "left \<le> mid" "mid < right" "mid = left + (right - left) div 2"
      using True by (simp_all add: mid_def)
    have inr: "0 \<le> mid" "mid < int (length arr)" "nat mid < length arr"
      using mid "1.prems"(2,4) by simp_all
    have idx: "index arr mid = Done (arr ! nat mid)" using inr by simp
    show ?thesis
    proof (cases "arr ! nat mid < t")
      case less: True
      have below: "\<forall>i < nat (mid + 1). arr ! i < t"
      proof (intro allI impI)
        fix i assume "i < nat (mid + 1)"
        then have "i \<le> nat mid" using inr(1) by simp
        then have "arr ! i \<le> arr ! nat mid"
          using "1.prems"(1) inr(3) by (simp add: sorted_nth_mono)
        with less show "arr ! i < t" by simp
      qed
      have "\<exists>r. findInsertionPoint_loop arr t (mid + 1) right = Done (int r) \<and> r \<le> length arr
         \<and> (\<forall>i < r. arr ! i < t) \<and> (\<forall>i. r \<le> i \<and> i < length arr \<longrightarrow> t \<le> arr ! i)"
        using "1.IH"(1) [OF True mid_def idx less "1.prems"(1)] inr mid "1.prems"(4,6) below
        by simp
      moreover have "findInsertionPoint_loop arr t left right
          = findInsertionPoint_loop arr t (mid + 1) right"
        using True idx less
        by (subst findInsertionPoint_loop.simps) (simp add: mid(3) [symmetric] Let_def)
      ultimately show ?thesis by simp
    next
      case ge: False
      have above: "\<forall>i. nat mid \<le> i \<and> i < length arr \<longrightarrow> t \<le> arr ! i"
      proof (intro allI impI)
        fix i assume "nat mid \<le> i \<and> i < length arr"
        then have "arr ! nat mid \<le> arr ! i"
          using "1.prems"(1) by (simp add: sorted_nth_mono)
        with ge show "t \<le> arr ! i" by simp
      qed
      have "\<exists>r. findInsertionPoint_loop arr t left mid = Done (int r) \<and> r \<le> length arr
         \<and> (\<forall>i < r. arr ! i < t) \<and> (\<forall>i. r \<le> i \<and> i < length arr \<longrightarrow> t \<le> arr ! i)"
        using "1.IH"(2) [OF True mid_def idx ge "1.prems"(1,2)] inr mid "1.prems"(5) above
        by simp
      moreover have "findInsertionPoint_loop arr t left right
          = findInsertionPoint_loop arr t left mid"
        using True idx ge
        by (subst findInsertionPoint_loop.simps) (simp add: mid(3) [symmetric] Let_def)
      ultimately show ?thesis by simp
    qed
  qed
qed

lemma sorted_insert_at:
  assumes "sorted arr" and "r \<le> length arr" and "\<forall>i < r. arr ! i < t"
    and "\<forall>i. r \<le> i \<and> i < length arr \<longrightarrow> t \<le> arr ! i"
  shows "sorted (take r arr @ t # drop r arr)"
proof -
  have 1: "sorted (take r arr)" "sorted (drop r arr)"
    using assms(1) by (simp_all add: sorted_wrt_take sorted_wrt_drop)
  have 2: "\<forall>x \<in> set (take r arr). x < t"
    using assms(2,3) by (auto simp: in_set_conv_nth)
  have 3: "\<forall>y \<in> set (drop r arr). t \<le> y"
    using assms(2,4) by (auto simp: in_set_conv_nth)
  have "\<forall>x \<in> set (take r arr). \<forall>y \<in> set (t # drop r arr). x \<le> y"
    using 2 3 by fastforce
  with 1 3 show ?thesis by (simp add: sorted_append)
qed

text \<open>
  C10. On a sorted array \<open>FindInsertionPoint\<close> returns an index \<open>r\<close> between 0 and the
  length such that every element before \<open>r\<close> is smaller than the target and every
  element from \<open>r\<close> on is at least the target: \<open>r\<close> is the least index holding an
  element \<open>\<ge> target\<close>, or the length when there is none; it is the number of leading
  elements smaller than the target. Inserting the target at \<open>r\<close> keeps the array
  sorted, in front of the elements equal to it.
\<close>

theorem FindInsertionPoint_lower_bound:
  assumes "sorted arr"
  shows "\<exists>r. FindInsertionPoint arr t = Done (int r) \<and> r \<le> length arr
           \<and> (\<forall>i < r. arr ! i < t)
           \<and> (\<forall>i. r \<le> i \<and> i < length arr \<longrightarrow> t \<le> arr ! i)
           \<and> r = length (takeWhile (\<lambda>x. x < t) arr)
           \<and> sorted (take r arr @ t # drop r arr)"
proof -
  from findInsertionPoint_loop_bound [OF assms, of 0 "int (length arr)" t]
  obtain r where run: "FindInsertionPoint arr t = Done (int r)" and le: "r \<le> length arr"
    and lo: "\<forall>i < r. arr ! i < t" and hi: "\<forall>i. r \<le> i \<and> i < length arr \<longrightarrow> t \<le> arr ! i"
    by (auto simp: FindInsertionPoint_def)
  have "takeWhile (\<lambda>x. x < t) arr = take r arr"
  proof (rule takeWhile_eq_take_P_nth)
    show "\<And>i. i < r \<Longrightarrow> i < length arr \<Longrightarrow> arr ! i < t" using lo by simp
    show "r < length arr \<Longrightarrow> \<not> arr ! r < t" using hi by (simp add: not_less)
  qed
  then have "r = length (takeWhile (\<lambda>x. x < t) arr)" using le by simp
  moreover have "sorted (take r arr @ t # drop r arr)"
    using assms le lo hi by (rule sorted_insert_at)
  ultimately show ?thesis using run le lo hi by blast
qed

theorem FindInsertionPoint_lower_bound_witness:
  "sorted [1, 3, 3, 5 :: int] \<and> FindInsertionPoint [1, 3, 3, 5] 3 = Done 1
   \<and> (\<exists>r. FindInsertionPoint [1, 3, 3, 5] 3 = Done (int r) \<and> r \<le> length [1, 3, 3, 5 :: int]
         \<and> (\<forall>i < r. [1, 3, 3, 5 :: int] ! i < 3)
         \<and> (\<forall>i. r \<le> i \<and> i < length [1, 3, 3, 5 :: int] \<longrightarrow> 3 \<le> [1, 3, 3, 5 :: int] ! i)
         \<and> r = length (takeWhile (\<lambda>x. x < 3) [1, 3, 3, 5 :: int])
         \<and> sorted (take r [1, 3, 3, 5] @ 3 # drop r [1, 3, 3, 5 :: int]))"
proof -
  have s: "sorted [1, 3, 3, 5 :: int]" by simp
  have e: "FindInsertionPoint [1, 3, 3, 5] 3 = Done 1"
    by (simp add: FindInsertionPoint_def findInsertionPoint_loop.simps index_def quot_def)
  from s e FindInsertionPoint_lower_bound [OF s, of 3] show ?thesis by (intro conjI)
qed

section \<open>Merging two sorted runs\<close>

lemma assign_in_range [simp]:
  "k < length arr \<Longrightarrow> assign arr (int k) v = Done (arr[k := v])"
  by (simp add: assign_def)

lemma index_nat [simp]: "i < length arr \<Longrightarrow> index arr (int i) = Done (arr ! i)"
  by (simp add: index_def)

lemma int_Suc_plus: "int i + 1 = int (Suc i)"
  by simp

lemma take_Suc_update: "k < length arr \<Longrightarrow> take (Suc k) (arr[k := v]) = take k arr @ [v]"
  by (simp add: take_Suc_conv_app_nth)

lemma copy_rest_spec:
  "k + length rest \<le> length arr \<Longrightarrow>
   copy_rest (pre @ rest) (int (length (pre @ rest))) arr (int (length pre)) (int k)
     = Done (take k arr @ rest @ drop (k + length rest) arr,
             int (length (pre @ rest)), int (k + length rest))"
proof (induction rest arbitrary: pre k arr)
  case Nil
  then show ?case by (subst copy_rest.simps) simp
next
  case (Cons x rest)
  then have k: "k < length arr" by simp
  let ?arr = "arr[k := x]"
  have "copy_rest ((pre @ [x]) @ rest) (int (length ((pre @ [x]) @ rest))) ?arr
          (int (length (pre @ [x]))) (int (Suc k))
     = Done (take (Suc k) ?arr @ rest @ drop (Suc k + length rest) ?arr,
             int (length ((pre @ [x]) @ rest)), int (Suc k + length rest))"
    using Cons.prems by (intro Cons.IH) simp
  moreover have "take (Suc k) ?arr = take k arr @ [x]" using k by (rule take_Suc_update)
  ultimately have "copy_rest (pre @ x # rest) (int (length (pre @ x # rest))) ?arr
          (int (Suc (length pre))) (int (Suc k))
     = Done (take k arr @ (x # rest) @ drop (k + length (x # rest)) arr,
             int (length (pre @ x # rest)), int (k + length (x # rest)))"
    by simp
  then show ?case
    using k by (subst copy_rest.simps) (simp add: int_Suc_plus del: of_nat_Suc)
qed

lemma merge_loops_unfold:
  "merge_loops L R ls rs arr i j k =
     (if i < ls \<and> j < rs then
        (case index L i of
           Panic \<Rightarrow> Panic
         | Done l \<Rightarrow>
             (case index R j of
                Panic \<Rightarrow> Panic
              | Done r \<Rightarrow>
                  (if l \<le> r then
                     (case assign arr k l of
                        Panic \<Rightarrow> Panic
                      | Done arr' \<Rightarrow> merge_loops L R ls rs arr' (i + 1) j (k + 1))
                   else
                     (case assign arr k r of
                        Panic \<Rightarrow> Panic
                      | Done arr' \<Rightarrow> merge_loops L R ls rs arr' i (j + 1) (k + 1)))))
      else
        (case copy_rest L ls arr i k of
           Panic \<Rightarrow> Panic
         | Done (arr2, i2, k2) \<Rightarrow>
             (case copy_rest R rs arr2 j k2 of
                Panic \<Rightarrow> Panic
              | Done (arr3, j3, k3) \<Rightarrow> Done arr3)))"
  unfolding merge_loops_def
  by (subst merge_loop1.simps) (simp split: exec.splits)


lemma fmerge_Nil2 [simp]: "fmerge xs [] = xs"
  by (cases xs) simp_all

lemma fcount_Nil2 [simp]: "fcount xs [] = 0"
  by (cases xs) simp_all

lemma length_fmerge [simp]: "length (fmerge xs ys) = length xs + length ys"
  by (induction xs ys rule: fmerge.induct) simp_all

lemma tails_exit:
  assumes "ls = [] \<or> rs = []" and "k + length ls + length rs \<le> length arr"
  shows "copy_rest (lp @ ls) (int (length (lp @ ls))) arr (int (length lp)) (int k)
      = Done (take k arr @ ls @ drop (k + length ls) arr,
              int (length (lp @ ls)), int (k + length ls))"
    and "copy_rest (rp @ rs) (int (length (rp @ rs))) (take k arr @ ls @ drop (k + length ls) arr)
           (int (length rp)) (int (k + length ls))
      = Done (take k arr @ fmerge ls rs @ drop (k + length ls + length rs) arr,
              int (length (rp @ rs)), int (k + length ls + length rs))"
proof -
  define arr2 where "arr2 = take k arr @ ls @ drop (k + length ls) arr"
  show "copy_rest (lp @ ls) (int (length (lp @ ls))) arr (int (length lp)) (int k)
      = Done (take k arr @ ls @ drop (k + length ls) arr,
              int (length (lp @ ls)), int (k + length ls))"
    using assms(2) by (intro copy_rest_spec) simp
  have len2: "length arr2 = length arr"
    using assms(2) by (simp add: arr2_def)
  have 2: "copy_rest (rp @ rs) (int (length (rp @ rs))) arr2 (int (length rp)) (int (k + length ls))
      = Done (take (k + length ls) arr2 @ rs @ drop (k + length ls + length rs) arr2,
              int (length (rp @ rs)), int (k + length ls + length rs))"
    using assms(2) len2 by (intro copy_rest_spec) simp
  have t: "take (k + length ls) arr2 = take k arr @ ls"
    using assms(2) by (simp add: arr2_def)
  have "drop (k + length ls + length rs) arr2 = drop (length rs) (drop (k + length ls) arr2)"
    by (simp add: add.commute)
  also have "drop (k + length ls) arr2 = drop (k + length ls) arr"
    using assms(2) by (simp add: arr2_def)
  finally have d: "drop (k + length ls + length rs) arr2 = drop (k + length ls + length rs) arr"
    by (simp add: add.commute)
  have f: "fmerge ls rs = ls @ rs"
    using assms(1) by auto
  show "copy_rest (rp @ rs) (int (length (rp @ rs))) (take k arr @ ls @ drop (k + length ls) arr)
           (int (length rp)) (int (k + length ls))
      = Done (take k arr @ fmerge ls rs @ drop (k + length ls + length rs) arr,
              int (length (rp @ rs)), int (k + length ls + length rs))"
    using 2 t d f by (simp add: arr2_def)
qed

lemma merge_loops_spec:
  "k + length ls + length rs \<le> length arr \<Longrightarrow>
   merge_loops (lp @ ls) (rp @ rs) (int (length (lp @ ls))) (int (length (rp @ rs))) arr
       (int (length lp)) (int (length rp)) (int k)
     = Done (take k arr @ fmerge ls rs @ drop (k + length ls + length rs) arr)"
proof (induction ls rs arbitrary: lp rp k arr rule: fmerge.induct)
  case (1 rs)
  have "[] = [] \<or> rs = []" "k + length ([] :: int list) + length rs \<le> length arr"
    using "1.prems" by simp_all
  note t = tails_exit [OF this]
  from t(1) [of lp] t(2) [of rp] show ?case
    by (subst merge_loops_unfold) simp
next
  case (2 v va)
  have "v # va = [] \<or> [] = ([] :: int list)"
    "k + length (v # va) + length ([] :: int list) \<le> length arr"
    using "2.prems" by simp_all
  note t = tails_exit [OF this]
  from t(1) [of lp] t(2) [of rp] show ?case
    by (subst merge_loops_unfold) simp
next
  case (3 x xs y ys)
  have k: "k < length arr" using "3.prems" by simp
  have ix: "index (lp @ x # xs) (int (length lp)) = Done x"
    "index (rp @ y # ys) (int (length rp)) = Done y"
    by (simp_all add: index_def)
  show ?case
  proof (cases "x \<le> y")
    case True
    let ?arr = "arr[k := x]"
    have "merge_loops ((lp @ [x]) @ xs) (rp @ y # ys) (int (length ((lp @ [x]) @ xs)))
            (int (length (rp @ y # ys))) ?arr (int (length (lp @ [x]))) (int (length rp))
            (int (Suc k))
        = Done (take (Suc k) ?arr @ fmerge xs (y # ys)
              @ drop (Suc k + length xs + length (y # ys)) ?arr)"
      using "3.prems" by (intro "3.IH"(1) [OF True]) simp
    moreover have "take (Suc k) ?arr = take k arr @ [x]" using k by (rule take_Suc_update)
    ultimately have "merge_loops (lp @ x # xs) (rp @ y # ys) (int (length (lp @ x # xs)))
            (int (length (rp @ y # ys))) ?arr (int (Suc (length lp))) (int (length rp))
            (int (Suc k))
        = Done (take k arr @ fmerge (x # xs) (y # ys)
              @ drop (k + length (x # xs) + length (y # ys)) arr)"
      using True by simp
    then show ?thesis
      using k True ix
      by (subst merge_loops_unfold) (simp add: int_Suc_plus del: of_nat_Suc)
  next
    case False
    let ?arr = "arr[k := y]"
    have "merge_loops (lp @ x # xs) ((rp @ [y]) @ ys) (int (length (lp @ x # xs)))
            (int (length ((rp @ [y]) @ ys))) ?arr (int (length lp)) (int (length (rp @ [y])))
            (int (Suc k))
        = Done (take (Suc k) ?arr @ fmerge (x # xs) ys
              @ drop (Suc k + length (x # xs) + length ys) ?arr)"
      using "3.prems" by (intro "3.IH"(2) [OF False]) simp
    moreover have "take (Suc k) ?arr = take k arr @ [y]" using k by (rule take_Suc_update)
    ultimately have "merge_loops (lp @ x # xs) (rp @ y # ys) (int (length (lp @ x # xs)))
            (int (length (rp @ y # ys))) ?arr (int (length lp)) (int (Suc (length rp)))
            (int (Suc k))
        = Done (take k arr @ fmerge (x # xs) (y # ys)
              @ drop (k + length (x # xs) + length (y # ys)) arr)"
      using False by simp
    then show ?thesis
      using k False ix
      by (subst merge_loops_unfold) (simp add: int_Suc_plus del: of_nat_Suc)
  qed
qed


subsection \<open>The functional merge\<close>

lemma mset_fmerge [simp]: "mset (fmerge xs ys) = mset xs + mset ys"
  by (induction xs ys rule: fmerge.induct) simp_all

lemma set_fmerge [simp]: "set (fmerge xs ys) = set xs \<union> set ys"
  by (induction xs ys rule: fmerge.induct) auto

lemma sorted_fmerge: "sorted xs \<Longrightarrow> sorted ys \<Longrightarrow> sorted (fmerge xs ys)"
  by (induction xs ys rule: fmerge.induct) auto

subsection \<open>Counting inversions\<close>

lemma cross_simps [simp]:
  "cross [] ys = 0"
  "cross (x # xs) ys = length (filter (\<lambda>y. y < x) ys) + cross xs ys"
  "cross xs [] = 0"
  by (simp_all add: cross_def)










lemma filter_eq_replicate: "filter (\<lambda>x. x = k) zs = replicate (count (mset zs) k) k"
  by (induction zs) auto

lemma filter_eq_mset: "mset xs = mset ys \<Longrightarrow> filter (\<lambda>x. x = k) xs = filter (\<lambda>x. x = k) ys"
  by (simp add: filter_eq_replicate)

subsection \<open>merge and mergeAndCount on a segment\<close>

lemma make_nat [simp]: "make (int n) = Done (replicate n 0)"
  by (simp add: make_def)

lemma copy_replicate [simp]: "copy (replicate (length xs) 0) xs = xs"
  by (simp add: copy_def)

lemma slice_segment:
  "slice (pre @ seg @ post) (int (length pre)) (int (length pre + length seg)) = Done seg"
  by (simp add: slice_def)

lemma segment_bounds:
  assumes "left = int (length pre)" and "mid = int (length pre + length ls) - 1"
    and "right = int (length pre + length ls + length rs) - 1"
  shows "mid - left + 1 = int (length ls)" and "right - mid = int (length rs)"
    and "mid + 1 = int (length pre + length ls)"
    and "right + 1 = int (length (pre @ ls) + length rs)"
  using assms by simp_all

lemma merge_spec:
  assumes "left = int (length pre)" and "mid = int (length pre + length ls) - 1"
    and "right = int (length pre + length ls + length rs) - 1"
  shows "merge (pre @ ls @ rs @ post) left mid right = Done (pre @ fmerge ls rs @ post)"
proof -
  note b = segment_bounds [OF assms]
  let ?arr = "pre @ ls @ rs @ post"
  have s1: "slice ?arr left (mid + 1) = Done ls"
    unfolding b(3) assms(1) using slice_segment [of pre ls "rs @ post"] by simp
  have s2: "slice ?arr (mid + 1) (right + 1) = Done rs"
    unfolding b(3,4) using slice_segment [of "pre @ ls" rs post] by simp
  have "merge_loops ([] @ ls) ([] @ rs) (int (length ([] @ ls))) (int (length ([] @ rs))) ?arr
          (int (length ([] :: int list))) (int (length ([] :: int list))) (int (length pre))
      = Done (take (length pre) ?arr @ fmerge ls rs
            @ drop (length pre + length ls + length rs) ?arr)"
    by (intro merge_loops_spec) simp
  then have loops: "merge_loops ls rs (int (length ls)) (int (length rs)) ?arr 0 0 left
      = Done (pre @ fmerge ls rs @ post)"
    by (simp add: assms(1))
  have "merge ?arr left mid right
      = merge_loops ls rs (int (length ls)) (int (length rs)) ?arr 0 0 left"
    unfolding merge_def merge_loops_def Let_def b(1,2) s1 s2 make_nat exec.case copy_replicate
    by (rule refl)
  with loops show ?thesis by simp
qed


subsection \<open>The recursive helpers\<close>

lemma halves:
  assumes "2 \<le> length seg"
  defines "h \<equiv> Suc ((length seg - 1) div 2)"
  shows "seg = take h seg @ drop h seg" and "length (take h seg) = h" and "h < length seg"
    and "length (take h seg) < length seg" and "length (drop h seg) < length seg"
    and "int (length pre) + (int (length pre + length seg) - 1 - int (length pre)) div 2
           = int (length pre + length (take h seg)) - 1"
proof -
  show h: "h < length seg" using assms(1) unfolding h_def by linarith
  then show len: "length (take h seg) = h" by simp
  show "seg = take h seg @ drop h seg" by simp
  show "length (take h seg) < length seg" using h len by simp
  show "length (drop h seg) < length seg" using h by (simp add: h_def)
  define m where "m = (length seg - 1) div 2"
  have 1: "int (length pre + length seg) - 1 - int (length pre) = int (length seg - 1)"
    using assms(1) by simp
  have 2: "int (length seg - 1) div 2 = int m"
    unfolding m_def using zdiv_int [of "length seg - 1" 2] by simp
  have "h = Suc m" by (simp add: h_def m_def)
  with len have "length (take h seg) = Suc m" by (simp only:)
  then have 3: "int (length pre + length (take h seg)) - 1 = int (length pre) + int m"
    by simp
  show "int (length pre) + (int (length pre + length seg) - 1 - int (length pre)) div 2
           = int (length pre + length (take h seg)) - 1"
    unfolding 1 2 3 by (rule refl)
qed

lemma mergeSortHelper_spec:
  "left = int (length pre) \<Longrightarrow> right = int (length pre + length seg) - 1 \<Longrightarrow>
   \<exists>ys. mergeSortHelper (pre @ seg @ post) left right = Done (pre @ ys @ post)
        \<and> sorted ys \<and> mset ys = mset seg"
proof (induction "length seg" arbitrary: seg pre post left right rule: less_induct)
  case less
  show ?case
  proof (cases "2 \<le> length seg")
    case False
    then have "\<not> left < right" using less.prems by simp
    then have "mergeSortHelper (pre @ seg @ post) left right = Done (pre @ seg @ post)"
      by (subst mergeSortHelper.simps) simp
    moreover have "sorted seg" using False by (cases seg) (auto simp: Suc_le_eq)
    ultimately show ?thesis by blast
  next
    case True
    define h where "h = Suc ((length seg - 1) div 2)"
    define ls where "ls = take h seg"
    define rs where "rs = drop h seg"
    note hv = halves(1-5) [OF True, folded h_def, folded ls_def rs_def]
      halves(6) [OF True, of pre, folded h_def, folded ls_def rs_def]
    have lt: "left < right" using True less.prems by simp
    define mid where "mid = left + quot (right - left) 2"
    have "mid = left + (right - left) div 2"
      unfolding mid_def using lt by simp
    then have mid: "mid = int (length pre + length ls) - 1"
      unfolding less.prems using hv(6) by simp
    have lseg: "length seg = length ls + length rs" using hv(1) by (metis length_append)
    have "\<exists>ys. mergeSortHelper (pre @ ls @ (rs @ post)) left mid = Done (pre @ ys @ (rs @ post))
              \<and> sorted ys \<and> mset ys = mset ls"
    proof (rule less.hyps)
      show "length ls < length seg" by (fact hv(4))
      show "left = int (length pre)" by (fact less.prems(1))
      show "mid = int (length pre + length ls) - 1" by (fact mid)
    qed
    then obtain ys1 where
      r1: "mergeSortHelper (pre @ ls @ rs @ post) left mid = Done (pre @ ys1 @ rs @ post)"
      and s1: "sorted ys1" and m1: "mset ys1 = mset ls"
      by auto
    have l1: "length ys1 = length ls" using m1 by (rule mset_eq_length)
    have "\<exists>ys. mergeSortHelper ((pre @ ys1) @ rs @ post) (mid + 1) right
              = Done ((pre @ ys1) @ ys @ post) \<and> sorted ys \<and> mset ys = mset rs"
    proof (rule less.hyps)
      show "length rs < length seg" by (fact hv(5))
      show "mid + 1 = int (length (pre @ ys1))" using mid l1 by simp
      show "right = int (length (pre @ ys1) + length rs) - 1"
        using less.prems(2) l1 lseg by simp
    qed
    then obtain ys2 where
      r2: "mergeSortHelper (pre @ ys1 @ rs @ post) (mid + 1) right
             = Done (pre @ ys1 @ ys2 @ post)"
      and s2: "sorted ys2" and m2: "mset ys2 = mset rs"
      by auto
    have l2: "length ys2 = length rs" using m2 by (rule mset_eq_length)
    have r3: "merge (pre @ ys1 @ ys2 @ post) left mid right
        = Done (pre @ fmerge ys1 ys2 @ post)"
    proof (rule merge_spec)
      show "left = int (length pre)" by (fact less.prems(1))
      show "mid = int (length pre + length ys1) - 1" using mid l1 by simp
      show "right = int (length pre + length ys1 + length ys2) - 1"
        using less.prems(2) l1 l2 lseg by simp
    qed
    have seg: "pre @ seg @ post = pre @ ls @ rs @ post"
      by (subst hv(1)) simp
    have "mergeSortHelper (pre @ seg @ post) left right = Done (pre @ fmerge ys1 ys2 @ post)"
      unfolding seg using lt r1 r2 r3
      by (subst mergeSortHelper.simps) (simp add: mid_def [symmetric] Let_def del: quot_nonneg)
    moreover have "sorted (fmerge ys1 ys2)" using s1 s2 by (rule sorted_fmerge)
    moreover have "mset seg = mset ls + mset rs"
      by (subst hv(1)) simp
    then have "mset (fmerge ys1 ys2) = mset seg"
      using m1 m2 by simp
    ultimately show ?thesis by blast
  qed
qed


section \<open>MergeSort\<close>

lemma mergeSortHelper_whole:
  "\<exists>ys. mergeSortHelper xs 0 (int (length xs) - 1) = Done ys \<and> sorted ys \<and> mset ys = mset xs"
  using mergeSortHelper_spec [of 0 "[]" "int (length xs) - 1" xs "[]"] by simp


text \<open>
  C8, as stated, fails for arrays of at most one element: \<open>MergeSort\<close> then returns its
  argument, the very slice it was given, and allocates nothing.
\<close>

theorem MergeSort_counterexample:
  "arrays (one_array [42]) 0 = [42] \<and> MergeSort 0 (one_array [42]) = Done (0, one_array [42])"
  by (simp add: MergeSort_def one_array_def)

text \<open>
  C8, amended. For every allocated array, \<open>MergeSort\<close> returns an array that holds the
  elements of the input in non-descending order (a permutation of the input), with the
  elements of each value in their original relative order (on integers, equal elements
  cannot be told apart, so stability says no more than that), and it changes no array
  that existed before the call, the input included. The array returned is a newly
  allocated one when the input has more than one element, and the input slice itself
  when it has at most one.
\<close>

theorem MergeSort_sorts:
  assumes "arr < unused st"
  shows "\<exists>r st'. MergeSort arr st = Done (r, st')
           \<and> sorted (arrays st' r) \<and> mset (arrays st' r) = mset (arrays st arr)
           \<and> (\<forall>k. filter (\<lambda>x. x = k) (arrays st' r) = filter (\<lambda>x. x = k) (arrays st arr))
           \<and> (\<forall>a < unused st. arrays st' a = arrays st a)
           \<and> (if 1 < length (arrays st arr)
                then r = unused st \<and> r \<noteq> arr \<and> unused st' = Suc (unused st)
                else r = arr \<and> st' = st)"
proof (cases "1 < length (arrays st arr)")
  case False
  then have run: "MergeSort arr st = Done (arr, st)" by (simp add: MergeSort_def)
  have "length (arrays st arr) = 0 \<or> length (arrays st arr) = 1" using False by linarith
  then have "sorted (arrays st arr)" by (cases "arrays st arr") auto
  with run False show ?thesis by simp
next
  case True
  define xs where "xs = arrays st arr"
  from mergeSortHelper_whole [of xs] obtain ys where
    h: "mergeSortHelper xs 0 (int (length xs) - 1) = Done ys"
    and s: "sorted ys" and m: "mset ys = mset xs"
    by blast
  define st' where
    "st' = st\<lparr>arrays := (arrays st)(unused st := ys), unused := Suc (unused st)\<rparr>"
  have run: "MergeSort arr st = Done (unused st, st')"
    using True h by (simp add: MergeSort_def xs_def [symmetric] st'_def)
  have new: "arrays st' (unused st) = ys" by (simp add: st'_def)
  have old: "\<forall>a < unused st. arrays st' a = arrays st a" by (simp add: st'_def)
  have stable: "\<forall>k. filter (\<lambda>x. x = k) ys = filter (\<lambda>x. x = k) xs"
    using filter_eq_mset [OF m] by blast
  have "unused st \<noteq> arr" using assms by simp
  moreover have "unused st' = Suc (unused st)" by (simp add: st'_def)
  ultimately show ?thesis
    using run new old stable s m True by (simp add: xs_def)
qed

theorem MergeSort_sorts_witness:
  "0 < unused (one_array [5, 4, 3, 2, 1])
   \<and> (\<exists>r st'. MergeSort 0 (one_array [5, 4, 3, 2, 1]) = Done (r, st')
         \<and> arrays st' r = [1, 2, 3, 4, 5] \<and> arrays st' 0 = [5, 4, 3, 2, 1] \<and> r = 1)"
proof -
  let ?st = "one_array [5, 4, 3, 2, 1]"
  have a: "0 < unused ?st" and xs: "arrays ?st 0 = [5, 4, 3, 2, 1]" and u: "unused ?st = 1"
    by (simp_all add: one_array_def)
  from MergeSort_sorts [OF a] obtain r st' where
    run: "MergeSort 0 ?st = Done (r, st')" and s: "sorted (arrays st' r)"
    and m: "mset (arrays st' r) = mset (arrays ?st 0)"
    and old: "\<forall>a < unused ?st. arrays st' a = arrays ?st a"
    and new: "if 1 < length (arrays ?st 0)
                then r = unused ?st \<and> r \<noteq> 0 \<and> unused st' = Suc (unused ?st)
                else r = 0 \<and> st' = ?st"
    by blast
  have "arrays st' r = sort (arrays ?st 0)"
    using s m by (metis properties_for_sort)
  then have "arrays st' r = [1, 2, 3, 4, 5]" by (simp add: xs)
  moreover have "arrays st' 0 = [5, 4, 3, 2, 1]" using old a xs by simp
  moreover have "r = 1" using new xs u by simp
  ultimately show ?thesis using a run by blast
qed

section \<open>CountInversions\<close>



end
